theory Spec2Isabelle
  imports Main "HOL-Library.Word" "HOL-Library.Monad_Syntax"
begin

unbundle bit_operations_syntax

section \<open>Memory and the boundary-tag macros of \<open>malloclab_mm.c\<close>\<close>

text \<open>
  The allocator works on raw memory. Pointers (\<open>char *\<close>, \<open>void *\<close>) and \<open>size_t\<close> values
  are 64-bit words, the tags read and written through \<open>unsigned int *\<close> are 32-bit words,
  and the memory is a function from addresses to bytes (little-endian, as on x86-64).
  The null pointer is the address 0.
\<close>

type_synonym addr = "64 word"
type_synonym byte = "8 word"
type_synonym memory = "addr \<Rightarrow> byte"

definition WSIZE :: "64 word" where "WSIZE = 4"
definition DSIZE :: "64 word" where "DSIZE = 8"
definition CHUNKSIZE :: "64 word" where "CHUNKSIZE = push_bit 9 1"

definition MAX_macro :: "64 word \<Rightarrow> 64 word \<Rightarrow> 64 word" where
  "MAX_macro x y = (if x > y then x else y)"

definition PACK :: "64 word \<Rightarrow> 64 word \<Rightarrow> 64 word" where
  "PACK sz alloc = sz OR alloc"

text \<open>\<open>GET(p)\<close>: the \<open>unsigned int\<close> stored at \<open>p\<close>.\<close>

definition GET :: "memory \<Rightarrow> addr \<Rightarrow> 32 word" where
  "GET m p = ucast (m p) OR push_bit 8 (ucast (m (p + 1))) OR
             push_bit 16 (ucast (m (p + 2))) OR push_bit 24 (ucast (m (p + 3)))"

text \<open>\<open>PUT(p, val)\<close>: the value is a \<open>size_t\<close> expression, truncated by the store to 32 bits.\<close>

definition PUT :: "memory \<Rightarrow> addr \<Rightarrow> 64 word \<Rightarrow> memory" where
  "PUT m p val = m(p := ucast val, p + 1 := ucast (drop_bit 8 val),
                   p + 2 := ucast (drop_bit 16 val), p + 3 := ucast (drop_bit 24 val))"

definition GET_SIZE :: "memory \<Rightarrow> addr \<Rightarrow> 32 word" where
  "GET_SIZE m p = GET m p AND NOT 7"

definition GET_ALLOC :: "memory \<Rightarrow> addr \<Rightarrow> 32 word" where
  "GET_ALLOC m p = GET m p AND 1"

definition HDRP :: "addr \<Rightarrow> addr" where
  "HDRP bp = bp - WSIZE"

definition FTRP :: "memory \<Rightarrow> addr \<Rightarrow> addr" where
  "FTRP m bp = bp + ucast (GET_SIZE m (HDRP bp)) - DSIZE"

definition NEXT_BLKP :: "memory \<Rightarrow> addr \<Rightarrow> addr" where
  "NEXT_BLKP m bp = bp + ucast (GET_SIZE m (bp - WSIZE))"

definition PREV_BLKP :: "memory \<Rightarrow> addr \<Rightarrow> addr" where
  "PREV_BLKP m bp = bp - ucast (GET_SIZE m (bp - DSIZE))"

text \<open>The link fields of a free block: a \<open>char *\<close> stored at \<open>bp\<close> and at \<open>bp + DSIZE\<close>.\<close>

definition load_ptr :: "memory \<Rightarrow> addr \<Rightarrow> addr" where
  "load_ptr m p = ucast (m p) OR push_bit 8 (ucast (m (p + 1))) OR
                  push_bit 16 (ucast (m (p + 2))) OR push_bit 24 (ucast (m (p + 3))) OR
                  push_bit 32 (ucast (m (p + 4))) OR push_bit 40 (ucast (m (p + 5))) OR
                  push_bit 48 (ucast (m (p + 6))) OR push_bit 56 (ucast (m (p + 7)))"

definition store_ptr :: "memory \<Rightarrow> addr \<Rightarrow> addr \<Rightarrow> memory" where
  "store_ptr m p v = m(p := ucast v, p + 1 := ucast (drop_bit 8 v),
                       p + 2 := ucast (drop_bit 16 v), p + 3 := ucast (drop_bit 24 v),
                       p + 4 := ucast (drop_bit 32 v), p + 5 := ucast (drop_bit 40 v),
                       p + 6 := ucast (drop_bit 48 v), p + 7 := ucast (drop_bit 56 v))"

definition GET_PRED_PTR :: "memory \<Rightarrow> addr \<Rightarrow> addr" where
  "GET_PRED_PTR m bp = load_ptr m (bp + DSIZE)"

definition GET_NEXT_PTR :: "memory \<Rightarrow> addr \<Rightarrow> addr" where
  "GET_NEXT_PTR m bp = load_ptr m bp"

definition PUT_PRED_PTR :: "memory \<Rightarrow> addr \<Rightarrow> addr \<Rightarrow> memory" where
  "PUT_PRED_PTR m bp newptr = store_ptr m (bp + DSIZE) newptr"

definition PUT_NEXT_PTR :: "memory \<Rightarrow> addr \<Rightarrow> addr \<Rightarrow> memory" where
  "PUT_NEXT_PTR m bp newptr = store_ptr m bp newptr"

section \<open>The allocator state\<close>

text \<open>
  The globals of the file (\<open>heap_listp\<close> and the eleven list heads) together with the memory
  and the two variables of the arena-growth primitive.
\<close>

record state =
  mem :: memory
  heap_listp :: addr
  free_list_head_16 :: addr
  free_list_head_32 :: addr
  free_list_head_64 :: addr
  free_list_head_128 :: addr
  free_list_head_256 :: addr
  free_list_head_512 :: addr
  free_list_head_1024 :: addr
  free_list_head_2048 :: addr
  free_list_head_4096 :: addr
  free_list_head_8192 :: addr
  free_list_head_max :: addr
  mem_brk :: addr
  mem_max_addr :: addr

text \<open>
  Modelled from the spec: the arena-growth primitive \<open>mem_sbrk\<close> is a collaborator whose
  code is not part of the source file. Following the spec's contract
  (\<open>grow(minBytes)\<close> hands back the newly appended contiguous region or fails, and is
  monotonic), it returns the old break and advances it by \<open>incr\<close>, or fails with
  \<open>(void *)-1\<close> and leaves the state as it is when the arena cannot grow that far.
\<close>

definition mem_sbrk :: "state \<Rightarrow> 64 word \<Rightarrow> state \<times> addr" where
  "mem_sbrk s incr =
     (if unat (mem_brk s) + unat incr > unat (mem_max_addr s) then (s, - 1)
      else (s\<lparr>mem_brk := mem_brk s + incr\<rparr>, mem_brk s))"

definition find_list_tail :: "state \<Rightarrow> 64 word \<Rightarrow> addr" where
  "find_list_tail s sz =
     (if sz \<le> 16 then heap_listp s
      else if sz \<le> 32 then heap_listp s + DSIZE
      else if sz \<le> 64 then heap_listp s + DSIZE * 2
      else if sz \<le> 128 then heap_listp s + DSIZE * 3
      else if sz \<le> 256 then heap_listp s + DSIZE * 4
      else if sz \<le> 512 then heap_listp s + DSIZE * 5
      else if sz \<le> 1024 then heap_listp s + DSIZE * 6
      else if sz \<le> 2048 then heap_listp s + DSIZE * 7
      else if sz \<le> 4096 then heap_listp s + DSIZE * 8
      else if sz \<le> 8192 then heap_listp s + DSIZE * 9
      else heap_listp s + DSIZE * 10)"

definition find_list_head :: "state \<Rightarrow> 64 word \<Rightarrow> addr" where
  "find_list_head s sz =
     (if sz \<le> 16 then free_list_head_16 s
      else if sz \<le> 32 then free_list_head_32 s
      else if sz \<le> 64 then free_list_head_64 s
      else if sz \<le> 128 then free_list_head_128 s
      else if sz \<le> 256 then free_list_head_256 s
      else if sz \<le> 512 then free_list_head_512 s
      else if sz \<le> 1024 then free_list_head_1024 s
      else if sz \<le> 2048 then free_list_head_2048 s
      else if sz \<le> 4096 then free_list_head_4096 s
      else if sz \<le> 8192 then free_list_head_8192 s
      else free_list_head_max s)"

definition set_list_head :: "state \<Rightarrow> 64 word \<Rightarrow> addr \<Rightarrow> state" where
  "set_list_head s sz newptr =
     (if sz \<le> 16 then s\<lparr>free_list_head_16 := newptr\<rparr>
      else if sz \<le> 32 then s\<lparr>free_list_head_32 := newptr\<rparr>
      else if sz \<le> 64 then s\<lparr>free_list_head_64 := newptr\<rparr>
      else if sz \<le> 128 then s\<lparr>free_list_head_128 := newptr\<rparr>
      else if sz \<le> 256 then s\<lparr>free_list_head_256 := newptr\<rparr>
      else if sz \<le> 512 then s\<lparr>free_list_head_512 := newptr\<rparr>
      else if sz \<le> 1024 then s\<lparr>free_list_head_1024 := newptr\<rparr>
      else if sz \<le> 2048 then s\<lparr>free_list_head_2048 := newptr\<rparr>
      else if sz \<le> 4096 then s\<lparr>free_list_head_4096 := newptr\<rparr>
      else if sz \<le> 8192 then s\<lparr>free_list_head_8192 := newptr\<rparr>
      else s\<lparr>free_list_head_max := newptr\<rparr>)"

text \<open>The size of the block at \<open>bp\<close>, as the code reads it into a \<open>size_t\<close>.\<close>

definition block_size :: "state \<Rightarrow> addr \<Rightarrow> 64 word" where
  "block_size s bp = ucast (GET_SIZE (mem s) (HDRP bp))"

section \<open>The free lists\<close>

text \<open>
  The scan of the singly linked smallest class for the predecessor of \<open>bp\<close>:
  \<open>for (bp_pred = free_list_tail; GET_NEXT_PTR(bp_pred) != bp; bp_pred = GET_NEXT_PTR(bp_pred));\<close>
  It need not end, so the result is optional.
\<close>

partial_function (option) find_pred :: "memory \<Rightarrow> addr \<Rightarrow> addr \<Rightarrow> addr option" where
  "find_pred m bp_pred bp =
     (if GET_NEXT_PTR m bp_pred = bp then Some bp_pred
      else find_pred m (GET_NEXT_PTR m bp_pred) bp)"

definition remove_frome_free_list :: "state \<Rightarrow> addr \<Rightarrow> state option" where
  "remove_frome_free_list s bp =
     (let free_list_tail = find_list_tail s (block_size s bp) in
      if block_size s bp > 16 then
        (if GET_NEXT_PTR (mem s) bp = 0 then
           (let s1 = set_list_head s (block_size s bp) (GET_PRED_PTR (mem s) bp) in
            Some (s1\<lparr>mem := PUT_NEXT_PTR (mem s1) (find_list_head s1 (block_size s1 bp)) 0\<rparr>))
         else
           (let m1 = PUT_NEXT_PTR (mem s) (GET_PRED_PTR (mem s) bp) (GET_NEXT_PTR (mem s) bp);
                m2 = PUT_PRED_PTR m1 (GET_NEXT_PTR m1 bp) (GET_PRED_PTR m1 bp)
            in Some (s\<lparr>mem := m2\<rparr>)))
      else
        do {
          bp_pred \<leftarrow> find_pred (mem s) free_list_tail bp;
          if GET_NEXT_PTR (mem s) bp = 0 then
            (let s1 = set_list_head s (block_size s bp) bp_pred in
             Some (s1\<lparr>mem := PUT_NEXT_PTR (mem s1) (find_list_head s1 (block_size s1 bp)) 0\<rparr>))
          else
            Some (s\<lparr>mem := PUT_NEXT_PTR (mem s) bp_pred (GET_NEXT_PTR (mem s) bp)\<rparr>)
        })"

definition add_to_free_list :: "state \<Rightarrow> addr \<Rightarrow> state" where
  "add_to_free_list s bp =
     (let free_list_head = find_list_head s (block_size s bp) in
      if block_size s bp > 16 then
        (let m1 = PUT_NEXT_PTR (mem s) free_list_head bp;
             m2 = PUT_PRED_PTR m1 bp free_list_head;
             m3 = PUT_NEXT_PTR m2 bp 0;
             s3 = s\<lparr>mem := m3\<rparr>
         in set_list_head s3 (block_size s3 bp) bp)
      else
        (let m1 = PUT_NEXT_PTR (mem s) free_list_head bp;
             m2 = PUT_NEXT_PTR m1 bp 0;
             s2 = s\<lparr>mem := m2\<rparr>
         in set_list_head s2 (block_size s2 bp) bp))"

section \<open>Coalescing, placement and search\<close>

definition put_tag :: "state \<Rightarrow> addr \<Rightarrow> 64 word \<Rightarrow> state" where
  "put_tag s p val = s\<lparr>mem := PUT (mem s) p val\<rparr>"

text \<open>
  \<open>coalesce(bp)\<close>. In case 4 the two neighbour sizes are \<open>unsigned int\<close> values and are
  added as such before the sum is widened to \<open>size_t\<close>.
\<close>

definition coalesce :: "state \<Rightarrow> addr \<Rightarrow> (state \<times> addr) option" where
  "coalesce s bp =
     (let prev_alloc = GET_ALLOC (mem s) (FTRP (mem s) (PREV_BLKP (mem s) bp));
          next_alloc = GET_ALLOC (mem s) (HDRP (NEXT_BLKP (mem s) bp));
          sz = block_size s bp
      in
      if prev_alloc \<noteq> 0 \<and> next_alloc \<noteq> 0 then Some (s, bp)
      else if prev_alloc \<noteq> 0 \<and> next_alloc = 0 then
        do {
          let sz = sz + block_size s (NEXT_BLKP (mem s) bp);
          s1 \<leftarrow> remove_frome_free_list s bp;
          s2 \<leftarrow> remove_frome_free_list s1 (NEXT_BLKP (mem s1) bp);
          let s3 = put_tag s2 (HDRP bp) (PACK sz 0);
          let s4 = put_tag s3 (FTRP (mem s3) bp) (PACK sz 0);
          let s5 = add_to_free_list s4 bp;
          Some (s5, bp)
        }
      else if prev_alloc = 0 \<and> next_alloc \<noteq> 0 then
        do {
          let sz = sz + block_size s (PREV_BLKP (mem s) bp);
          s1 \<leftarrow> remove_frome_free_list s (PREV_BLKP (mem s) bp);
          let s2 = put_tag s1 (FTRP (mem s1) bp) (PACK sz 0);
          let s3 = put_tag s2 (HDRP (PREV_BLKP (mem s2) bp)) (PACK sz 0);
          s4 \<leftarrow> remove_frome_free_list s3 bp;
          let bp = PREV_BLKP (mem s4) bp;
          let s5 = add_to_free_list s4 bp;
          Some (s5, bp)
        }
      else
        do {
          let sz = sz + ucast (GET_SIZE (mem s) (HDRP (PREV_BLKP (mem s) bp)) +
                               GET_SIZE (mem s) (FTRP (mem s) (NEXT_BLKP (mem s) bp)));
          s1 \<leftarrow> remove_frome_free_list s (PREV_BLKP (mem s) bp);
          let s2 = put_tag s1 (HDRP (PREV_BLKP (mem s1) bp)) (PACK sz 0);
          let s3 = put_tag s2 (FTRP (mem s2) (NEXT_BLKP (mem s2) bp)) (PACK sz 0);
          s4 \<leftarrow> remove_frome_free_list s3 (NEXT_BLKP (mem s3) bp);
          s5 \<leftarrow> remove_frome_free_list s4 bp;
          let bp = PREV_BLKP (mem s5) bp;
          let s6 = add_to_free_list s5 bp;
          Some (s6, bp)
        })"

definition place :: "state \<Rightarrow> addr \<Rightarrow> 64 word \<Rightarrow> (state \<times> addr) option" where
  "place s bp asize =
     (let csize = block_size s bp in
      if csize - asize \<ge> 2 * DSIZE then
        do {
          s1 \<leftarrow> remove_frome_free_list s bp;
          let s2 = put_tag s1 (HDRP bp) (PACK (csize - asize) 0);
          let s3 = put_tag s2 (FTRP (mem s2) bp) (PACK (csize - asize) 0);
          let bp = NEXT_BLKP (mem s3) bp;
          let s4 = put_tag s3 (HDRP bp) (PACK asize 1);
          let s5 = put_tag s4 (FTRP (mem s4) bp) (PACK asize 1);
          let s6 = add_to_free_list s5 (PREV_BLKP (mem s5) bp);
          Some (s6, bp)
        }
      else
        do {
          let s1 = put_tag s (HDRP bp) (PACK csize 1);
          let s2 = put_tag s1 (FTRP (mem s1) bp) (PACK csize 1);
          s3 \<leftarrow> remove_frome_free_list s2 bp;
          Some (s3, bp)
        })"

text \<open>
  The inner loop of the first-fit stage of \<open>find_fit\<close>, from the node \<open>bp\<close> on: the first
  node with \<open>asize <= GET_SIZE(HDRP(bp))\<close>, or null at the end of the list.
\<close>

partial_function (option) first_fit_scan :: "memory \<Rightarrow> 64 word \<Rightarrow> addr \<Rightarrow> addr option" where
  "first_fit_scan m asize bp =
     (if bp = 0 then Some 0
      else if asize \<le> ucast (GET_SIZE m (HDRP bp)) then Some bp
      else first_fit_scan m asize (GET_NEXT_PTR m bp))"

text \<open>The inner loop of the best-fit stage; it carries \<open>t\<close> and \<open>bp_best\<close>.\<close>

partial_function (option) best_fit_scan ::
  "memory \<Rightarrow> 64 word \<Rightarrow> addr \<Rightarrow> 64 word \<Rightarrow> addr \<Rightarrow> (64 word \<times> addr) option" where
  "best_fit_scan m asize bp t bp_best =
     (if bp = 0 then Some (t, bp_best)
      else if asize \<le> ucast (GET_SIZE m (HDRP bp)) \<and> ucast (GET_SIZE m (HDRP bp)) \<le> t
      then best_fit_scan m asize (GET_NEXT_PTR m bp) (ucast (GET_SIZE m (HDRP bp))) bp
      else best_fit_scan m asize (GET_NEXT_PTR m bp) t bp_best)"

text \<open>The outer loop of the best-fit stage, over the anchors up to \<open>heap_listp + 11 * DSIZE\<close>.\<close>

partial_function (option) best_fit_loop ::
  "state \<Rightarrow> 64 word \<Rightarrow> addr \<Rightarrow> 64 word \<Rightarrow> addr \<Rightarrow> addr option" where
  "best_fit_loop s asize free_list_tail t bp_best =
     (if free_list_tail \<noteq> heap_listp s + 11 * DSIZE then
        do {
          r \<leftarrow> best_fit_scan (mem s) asize (GET_NEXT_PTR (mem s) free_list_tail) t bp_best;
          if snd r \<noteq> 0 then Some (snd r)
          else best_fit_loop s asize (free_list_tail + DSIZE) (fst r) (snd r)
        }
      else Some 0)"

text \<open>
  The outer loop of the first-fit stage with its condition as the source writes it; when
  the condition fails the search goes on with the best-fit stage from the same anchor,
  with \<open>bp_best = NULL\<close> and \<open>t = (1 << 30)\<close>.
\<close>

partial_function (option) first_fit_loop :: "state \<Rightarrow> 64 word \<Rightarrow> addr \<Rightarrow> addr option" where
  "first_fit_loop s asize free_list_tail =
     (if free_list_tail \<noteq> heap_listp s + 2 * DSIZE \<and> free_list_tail \<noteq> heap_listp s + 3 * DSIZE \<and>
         free_list_tail \<noteq> heap_listp s + 4 * DSIZE \<and> free_list_tail \<noteq> heap_listp s + 7 * DSIZE \<and>
         free_list_tail \<noteq> heap_listp s + 8 * DSIZE \<and> free_list_tail \<noteq> heap_listp s + 9 * DSIZE \<and>
         free_list_tail \<noteq> heap_listp s + 5 * DSIZE \<and> free_list_tail \<noteq> heap_listp s + 6 * DSIZE \<and>
         free_list_tail \<noteq> heap_listp s + 10 * DSIZE
      then
        do {
          bp \<leftarrow> first_fit_scan (mem s) asize (GET_NEXT_PTR (mem s) free_list_tail);
          if bp \<noteq> 0 then Some bp
          else first_fit_loop s asize (free_list_tail + DSIZE)
        }
      else best_fit_loop s asize free_list_tail (push_bit 30 1) 0)"

definition find_fit :: "state \<Rightarrow> 64 word \<Rightarrow> addr option" where
  "find_fit s asize = first_fit_loop s asize (find_list_tail s asize)"

section \<open>The entry points\<close>

text \<open>The byte count \<open>size\<close> that \<open>extend_heap\<close> computes from \<open>words\<close>.\<close>

definition extend_size :: "64 word \<Rightarrow> 64 word" where
  "extend_size words = (if words mod 2 \<noteq> 0 then (words + 1) * WSIZE else words * WSIZE)"

definition extend_heap :: "state \<Rightarrow> 64 word \<Rightarrow> (state \<times> addr) option" where
  "extend_heap s words =
     (let sz = extend_size words;
          (s1, bp) = mem_sbrk s sz
      in
      if bp = - 1 then Some (s1, 0)
      else
        (let s2 = put_tag s1 (HDRP bp) (PACK sz 0);
             s3 = put_tag s2 (FTRP (mem s2) bp) (PACK sz 0);
             s4 = put_tag s3 (HDRP (NEXT_BLKP (mem s3) bp)) (PACK 0 1);
             s5 = add_to_free_list s4 bp
         in coalesce s5 bp))"

definition init_anchors :: "state \<Rightarrow> state" where
  "init_anchors s =
     (let h = heap_listp s;
          m = mem s;
          m = PUT_NEXT_PTR m h 0;
          m = PUT_NEXT_PTR m (h + DSIZE) 0;
          m = PUT_NEXT_PTR m (h + DSIZE * 2) 0;
          m = PUT_NEXT_PTR m (h + DSIZE * 3) 0;
          m = PUT_NEXT_PTR m (h + DSIZE * 4) 0;
          m = PUT_NEXT_PTR m (h + DSIZE * 5) 0;
          m = PUT_NEXT_PTR m (h + DSIZE * 6) 0;
          m = PUT_NEXT_PTR m (h + DSIZE * 7) 0;
          m = PUT_NEXT_PTR m (h + DSIZE * 8) 0;
          m = PUT_NEXT_PTR m (h + DSIZE * 9) 0;
          m = PUT_NEXT_PTR m (h + DSIZE * 10) 0
      in s\<lparr>mem := m,
            free_list_head_16 := h,
            free_list_head_32 := h + DSIZE,
            free_list_head_64 := h + DSIZE * 2,
            free_list_head_128 := h + DSIZE * 3,
            free_list_head_256 := h + DSIZE * 4,
            free_list_head_512 := h + DSIZE * 5,
            free_list_head_1024 := h + DSIZE * 6,
            free_list_head_2048 := h + DSIZE * 7,
            free_list_head_4096 := h + DSIZE * 8,
            free_list_head_8192 := h + DSIZE * 9,
            free_list_head_max := h + DSIZE * 10\<rparr>)"

text \<open>\<open>mm_init\<close> returns 0, or -1 when the arena cannot be created.\<close>

definition mm_init :: "state \<Rightarrow> (state \<times> int) option" where
  "mm_init s =
     (let (s1, p) = mem_sbrk s (26 * WSIZE);
          s1 = s1\<lparr>heap_listp := p\<rparr>
      in
      if p = - 1 then Some (s1, - 1)
      else
        (let s2 = put_tag s1 (heap_listp s1) 0;
             s3 = put_tag s2 (heap_listp s2 + 1 * WSIZE) (PACK (DSIZE * 12) 1);
             s4 = put_tag s3 (heap_listp s3 + 24 * WSIZE) (PACK (DSIZE * 12) 1);
             s5 = put_tag s4 (heap_listp s4 + 25 * WSIZE) (PACK 0 1);
             s6 = s5\<lparr>heap_listp := heap_listp s5 + 2 * WSIZE\<rparr>;
             s7 = init_anchors s6
         in
         do {
           r \<leftarrow> extend_heap s7 (CHUNKSIZE div WSIZE);
           if snd r = 0 then Some (fst r, - 1) else Some (fst r, 0)
         }))"

text \<open>The lazy initialisation \<open>if (heap_listp == 0) mm_init();\<close>, whose result is dropped.\<close>

definition lazy_init :: "state \<Rightarrow> state option" where
  "lazy_init s = (if heap_listp s = 0 then map_option fst (mm_init s) else Some s)"

text \<open>The adjusted block size computed by \<open>malloc\<close> and \<open>realloc\<close>, in \<open>size_t\<close> arithmetic.\<close>

definition adjust_size :: "64 word \<Rightarrow> 64 word" where
  "adjust_size sz =
     (if sz \<le> DSIZE then 2 * DSIZE
      else DSIZE * ((sz + DSIZE + (DSIZE - 1)) div DSIZE))"

definition malloc :: "state \<Rightarrow> 64 word \<Rightarrow> (state \<times> addr) option" where
  "malloc s sz =
     do {
       s1 \<leftarrow> lazy_init s;
       if sz = 0 then Some (s1, 0)
       else
         (let asize = adjust_size sz in
          do {
            bp \<leftarrow> find_fit s1 asize;
            if bp \<noteq> 0 then place s1 bp asize
            else
              (let extendsize = MAX_macro asize CHUNKSIZE in
               do {
                 r \<leftarrow> extend_heap s1 (extendsize div WSIZE);
                 if snd r = 0 then Some (fst r, 0)
                 else place (fst r) (snd r) asize
               })
          })
     }"

definition free :: "state \<Rightarrow> addr \<Rightarrow> state option" where
  "free s bp =
     (if bp = 0 then Some s
      else
        (let sz = block_size s bp in
         do {
           s1 \<leftarrow> lazy_init s;
           let s2 = put_tag s1 (HDRP bp) (PACK sz 0);
           let s3 = put_tag s2 (FTRP (mem s2) bp) (PACK sz 0);
           let s4 = add_to_free_list s3 bp;
           r \<leftarrow> coalesce s4 bp;
           Some (fst r)
         }))"

text \<open>\<open>memcpy\<close> and \<open>memset\<close> on the byte memory.\<close>

definition memcpy :: "memory \<Rightarrow> addr \<Rightarrow> addr \<Rightarrow> 64 word \<Rightarrow> memory" where
  "memcpy m dst src n = (\<lambda>a. if a - dst < n then m (src + (a - dst)) else m a)"

definition memset :: "memory \<Rightarrow> addr \<Rightarrow> byte \<Rightarrow> 64 word \<Rightarrow> memory" where
  "memset m p c n = (\<lambda>a. if a - p < n then c else m a)"

text \<open>
  The last part of \<open>realloc\<close>, reached when no earlier branch returned:
  \<open>newptr = mm_malloc(asize); if (!newptr) return 0; memcpy(newptr, ptr, oldsize); mm_free(ptr);
  return newptr;\<close>
\<close>

definition realloc_fallback :: "state \<Rightarrow> addr \<Rightarrow> 64 word \<Rightarrow> 64 word \<Rightarrow> (state \<times> addr) option" where
  "realloc_fallback s ptr oldsize asize =
     do {
       r \<leftarrow> malloc s asize;
       if snd r = 0 then Some (fst r, 0)
       else
         do {
           let s1 = (fst r)\<lparr>mem := memcpy (mem (fst r)) (snd r) ptr oldsize\<rparr>;
           s2 \<leftarrow> free s1 ptr;
           Some (s2, snd r)
         }
     }"

definition realloc :: "state \<Rightarrow> addr \<Rightarrow> 64 word \<Rightarrow> (state \<times> addr) option" where
  "realloc s ptr sz =
     (if sz = 0 then map_option (\<lambda>s'. (s', 0)) (free s ptr)
      else if ptr = 0 then malloc s sz
      else
        (let oldsize = block_size s ptr;
             asize = adjust_size sz
         in
         if oldsize \<ge> asize + 2 * DSIZE then
           (let s1 = put_tag s (HDRP ptr) (PACK asize 1);
                s2 = put_tag s1 (FTRP (mem s1) ptr) (PACK asize 1);
                s3 = put_tag s2 (HDRP (NEXT_BLKP (mem s2) ptr)) (PACK (oldsize - asize) 1);
                s4 = put_tag s3 (FTRP (mem s3) (NEXT_BLKP (mem s3) ptr)) (PACK (oldsize - asize) 1)
            in map_option (\<lambda>s'. (s', ptr)) (free s4 (NEXT_BLKP (mem s4) ptr)))
         else if oldsize \<ge> asize then Some (s, ptr)
         else if GET_ALLOC (mem s) (HDRP (NEXT_BLKP (mem s) ptr)) = 0 then
           (let nowsize = oldsize + block_size s (NEXT_BLKP (mem s) ptr) in
            if nowsize \<ge> asize + 2 * DSIZE then
              do {
                s1 \<leftarrow> remove_frome_free_list s (NEXT_BLKP (mem s) ptr);
                let s2 = put_tag s1 (HDRP ptr) (PACK asize 1);
                let s3 = put_tag s2 (FTRP (mem s2) ptr) (PACK asize 1);
                let s4 = put_tag s3 (HDRP (NEXT_BLKP (mem s3) ptr)) (PACK (nowsize - asize) 0);
                let s5 = put_tag s4 (FTRP (mem s4) (NEXT_BLKP (mem s4) ptr)) (PACK (nowsize - asize) 0);
                let s6 = add_to_free_list s5 (NEXT_BLKP (mem s5) ptr);
                Some (s6, ptr)
              }
            else if nowsize \<ge> asize then
              do {
                s1 \<leftarrow> remove_frome_free_list s (NEXT_BLKP (mem s) ptr);
                let s2 = put_tag s1 (HDRP ptr) (PACK nowsize 1);
                let s3 = put_tag s2 (FTRP (mem s2) ptr) (PACK nowsize 1);
                Some (s3, ptr)
              }
            else realloc_fallback s ptr oldsize asize)
         else realloc_fallback s ptr oldsize asize))"

definition calloc :: "state \<Rightarrow> 64 word \<Rightarrow> 64 word \<Rightarrow> (state \<times> addr) option" where
  "calloc s nmemb sz =
     (let bytes = nmemb * sz in
      do {
        r \<leftarrow> malloc s bytes;
        let newptr = snd r;
        Some ((fst r)\<lparr>mem := memset (mem (fst r)) newptr 0 bytes\<rparr>, newptr)
      })"

section \<open>The specification's wording, for comparison\<close>

text \<open>
  The fallback of \<open>resize\<close> as the specification words it: allocate a fresh block of
  \<open>asize\<close>, copy \<open>min(oldPayloadSize, newSize)\<close> bytes, free the old block. The payload of a
  block is its size without the 8 bytes of header and footer.
\<close>

definition realloc_fallback_spec :: "state \<Rightarrow> addr \<Rightarrow> 64 word \<Rightarrow> (state \<times> addr) option" where
  "realloc_fallback_spec s ptr newSize =
     do {
       r \<leftarrow> malloc s (adjust_size newSize);
       if snd r = 0 then Some (fst r, 0)
       else
         do {
           let s1 = (fst r)\<lparr>mem := memcpy (mem (fst r)) (snd r) ptr
                                       (min (block_size s ptr - 8) newSize)\<rparr>;
           s2 \<leftarrow> free s1 ptr;
           Some (s2, snd r)
         }
     }"

text \<open>
  The search as the comments of the source document it: first-fit in the first nine lists,
  best-fit in the last two. Only the condition of the first loop differs from
  \<open>first_fit_loop\<close>.
\<close>

partial_function (option) first_fit_loop_documented :: "state \<Rightarrow> 64 word \<Rightarrow> addr \<Rightarrow> addr option" where
  "first_fit_loop_documented s asize free_list_tail =
     (if free_list_tail \<noteq> heap_listp s + 9 * DSIZE \<and> free_list_tail \<noteq> heap_listp s + 10 * DSIZE
      then
        do {
          bp \<leftarrow> first_fit_scan (mem s) asize (GET_NEXT_PTR (mem s) free_list_tail);
          if bp \<noteq> 0 then Some bp
          else first_fit_loop_documented s asize (free_list_tail + DSIZE)
        }
      else best_fit_loop s asize free_list_tail (push_bit 30 1) 0)"

definition find_fit_documented :: "state \<Rightarrow> 64 word \<Rightarrow> addr option" where
  "find_fit_documented s asize = first_fit_loop_documented s asize (find_list_tail s asize)"

text \<open>The condition under which \<open>realloc\<close> reaches its last part.\<close>

definition fallback_branch :: "state \<Rightarrow> addr \<Rightarrow> 64 word \<Rightarrow> bool" where
  "fallback_branch s ptr sz =
     (sz \<noteq> 0 \<and> ptr \<noteq> 0 \<and>
      \<not> block_size s ptr \<ge> adjust_size sz + 2 * DSIZE \<and>
      \<not> block_size s ptr \<ge> adjust_size sz \<and>
      (GET_ALLOC (mem s) (HDRP (NEXT_BLKP (mem s) ptr)) = 0 \<longrightarrow>
         \<not> block_size s ptr + block_size s (NEXT_BLKP (mem s) ptr) \<ge> adjust_size sz + 2 * DSIZE \<and>
         \<not> block_size s ptr + block_size s (NEXT_BLKP (mem s) ptr) \<ge> adjust_size sz))"

section \<open>Concrete heaps\<close>

text \<open>
  The allocator before its first call: nothing initialised, the arena empty at address
  \<open>0x1000\<close>, growable up to \<open>limit\<close>, the memory holding \<open>m\<close>.
\<close>

definition boot :: "memory \<Rightarrow> addr \<Rightarrow> state" where
  "boot m limit =
     \<lparr>mem = m, heap_listp = 0, free_list_head_16 = 0, free_list_head_32 = 0,
      free_list_head_64 = 0, free_list_head_128 = 0, free_list_head_256 = 0,
      free_list_head_512 = 0, free_list_head_1024 = 0, free_list_head_2048 = 0,
      free_list_head_4096 = 0, free_list_head_8192 = 0, free_list_head_max = 0,
      mem_brk = 0x1000, mem_max_addr = limit\<rparr>"

text \<open>
  A block of 32 bytes is allocated, a second block below it, the first is freed and goes
  to the list of its class; then \<open>calloc(1, 9)\<close> takes it. The probe gives the pointer
  returned, the size of its block and the byte at index 9 of its payload.
\<close>

definition zero_fill_probe :: "(addr \<times> 64 word \<times> byte) option" where
  "zero_fill_probe =
     do {
       s \<leftarrow> lazy_init (boot (\<lambda>_. 0) 0x2000);
       r1 \<leftarrow> malloc s 24;
       r2 \<leftarrow> malloc (fst r1) 8;
       s3 \<leftarrow> free (fst r2) (snd r1);
       r4 \<leftarrow> calloc s3 1 9;
       Some (snd r4, block_size (fst r4) (snd r4), mem (fst r4) (snd r4 + 9))
     }"

text \<open>
  The freshly initialised heap in a memory whose bytes are all \<open>0x55\<close>. The probe gives
  the pointer that \<open>malloc(16)\<close> returns there and the byte at index 3 of its payload, the
  pointer that \<open>calloc(2, 8)\<close> returns there and the same byte after it, and the pointer
  that \<open>calloc(0, 8)\<close> returns there.
\<close>

definition zero_prefix_probe :: "(addr \<times> byte \<times> addr \<times> byte \<times> addr) option" where
  "zero_prefix_probe =
     do {
       s \<leftarrow> lazy_init (boot (\<lambda>_. 0x55) 0x2000);
       r1 \<leftarrow> malloc s 16;
       r \<leftarrow> calloc s 2 8;
       r0 \<leftarrow> calloc s 0 8;
       Some (snd r1, mem (fst r1) (snd r1 + 3), snd r, mem (fst r) (snd r + 3), snd r0)
     }"

text \<open>
  An arena that cannot grow beyond its first chunk, in a memory whose bytes are all
  \<open>0x55\<close>; \<open>calloc(1, 1000)\<close> finds no fit. The probe gives the pointer returned, the byte
  at address 0 before and after the call, and the bytes at addresses 999 and 1000 after it.
\<close>

definition null_write_probe :: "(addr \<times> byte \<times> byte \<times> byte \<times> byte) option" where
  "null_write_probe =
     do {
       s \<leftarrow> lazy_init (boot (\<lambda>_. 0x55) 0x1268);
       r \<leftarrow> calloc s 1 1000;
       Some (snd r, mem s 0, mem (fst r) 0, mem (fst r) 999, mem (fst r) 1000)
     }"

text \<open>
  Blocks of 64 and 48 bytes, kept apart by allocated blocks, are freed in this order, so
  the list of the class up to 64 holds the block of 64 bytes first. The probe gives the
  first node of that list and its size, and what the search for 48 bytes returns in the
  source and in the documented policy.
\<close>

definition search_probe :: "(addr \<times> 64 word \<times> addr \<times> addr) option" where
  "search_probe =
     do {
       s \<leftarrow> lazy_init (boot (\<lambda>_. 0) 0x2000);
       r1 \<leftarrow> malloc s 56;
       r2 \<leftarrow> malloc (fst r1) 8;
       r3 \<leftarrow> malloc (fst r2) 40;
       r4 \<leftarrow> malloc (fst r3) 8;
       s5 \<leftarrow> free (fst r4) (snd r1);
       s6 \<leftarrow> free s5 (snd r3);
       f \<leftarrow> find_fit s6 48;
       d \<leftarrow> find_fit_documented s6 48;
       Some (GET_NEXT_PTR (mem s6) (find_list_tail s6 48),
             block_size s6 (GET_NEXT_PTR (mem s6) (find_list_tail s6 48)), f, d)
     }"

text \<open>
  \<open>malloc(SIZE_MAX)\<close> on the freshly initialised heap: the pointer returned and the size of
  its block.
\<close>

definition malloc_overflow_probe :: "(addr \<times> 64 word) option" where
  "malloc_overflow_probe =
     do {
       s \<leftarrow> lazy_init (boot (\<lambda>_. 0) 0x2000);
       r \<leftarrow> malloc s 0xFFFFFFFFFFFFFFFF;
       Some (snd r, block_size (fst r) (snd r))
     }"

text \<open>
  A block of 24 bytes (payload 16) at the end of the heap is resized to 17 bytes, once by
  the source and once by the specification's wording. The probe gives, for each, the
  pointer returned and the byte at index 16 of the new payload.
\<close>

definition copy_probe :: "(addr \<times> byte \<times> addr \<times> byte) option" where
  "copy_probe =
     do {
       s \<leftarrow> lazy_init (boot (\<lambda>_. 0) 0x2000);
       r1 \<leftarrow> malloc s 16;
       r \<leftarrow> realloc (fst r1) (snd r1) 17;
       r' \<leftarrow> realloc_fallback_spec (fst r1) (snd r1) 17;
       Some (snd r, mem (fst r) (snd r + 16), snd r', mem (fst r') (snd r' + 16))
     }"

text \<open>The same block in an arena that cannot grow; the state and the block pointer.\<close>

definition full_heap :: "(state \<times> addr) option" where
  "full_heap = do { s \<leftarrow> lazy_init (boot (\<lambda>_. 0) 0x1268); malloc s 16 }"

text \<open>
  \<open>place\<close> of 32 bytes in the free block of 512 bytes of the freshly initialised heap: the
  pointer returned, the header at the start of the candidate and the header of the
  block returned.
\<close>

definition place_probe :: "(addr \<times> 32 word \<times> 32 word) option" where
  "place_probe =
     do {
       s \<leftarrow> lazy_init (boot (\<lambda>_. 0) 0x2000);
       r \<leftarrow> place s 0x1068 32;
       Some (snd r, GET (mem (fst r)) (HDRP 0x1068), GET (mem (fst r)) (HDRP (snd r)))
     }"

definition full_heap_state :: state where
  "full_heap_state = (case full_heap of Some r \<Rightarrow> fst r | None \<Rightarrow> boot (\<lambda>_. 0) 0x1268)"

definition full_heap_block :: addr where
  "full_heap_block = (case full_heap of Some r \<Rightarrow> snd r | None \<Rightarrow> 0)"

text \<open>
  An arena that may grow to 2 GiB: a block of a little more than \<open>2^30\<close> bytes is
  allocated and freed again, which leaves one free block of \<open>2^30 + 624\<close> bytes.
\<close>

definition huge_scenario :: "state option" where
  "huge_scenario =
     do {
       s \<leftarrow> lazy_init (boot (\<lambda>_. 0) 0x80001000);
       r \<leftarrow> malloc s 1073741924;
       free (fst r) (snd r)
     }"

definition huge_heap :: state where
  "huge_heap = (case huge_scenario of Some s \<Rightarrow> s | None \<Rightarrow> boot (\<lambda>_. 0) 0x80001000)"

section \<open>Aligned cells of the memory\<close>

definition al4 :: "addr \<Rightarrow> bool" where "al4 p = (4 dvd uint p)"
definition al8 :: "addr \<Rightarrow> bool" where "al8 p = (8 dvd uint p)"

section \<open>Well-formed heaps\<close>

text \<open>
  A heap is described by the list of its blocks in address order, each with its size and
  its allocated flag, and by the eleven free lists, each the list of its nodes in list
  order. Positions are offsets from \<open>heap_listp\<close>: the header of the prologue is at offset
  -4, the anchor of class \<open>k\<close> at offset \<open>8 * k\<close>, the footer of the prologue at offset 88,
  and the first block has its payload at offset 96.
\<close>

definition off :: "addr \<Rightarrow> int \<Rightarrow> addr" where
  "off B x = B + word_of_int x"

definition tag :: "int \<Rightarrow> bool \<Rightarrow> 32 word" where
  "tag n a = word_of_int n OR (if a then 1 else 0)"

text \<open>The blocks from offset \<open>x\<close> on carry their tags, and the epilogue header follows.\<close>

fun blocks_ok :: "memory \<Rightarrow> addr \<Rightarrow> int \<Rightarrow> (int \<times> bool) list \<Rightarrow> bool" where
  "blocks_ok m B x [] = (GET m (off B (x - 4)) = 1)"
| "blocks_ok m B x (b # bs) =
     (16 \<le> fst b \<and> 8 dvd fst b \<and>
      GET m (off B (x - 4)) = tag (fst b) (snd b) \<and>
      GET m (off B (x + fst b - 8)) = tag (fst b) (snd b) \<and>
      blocks_ok m B (x + fst b) bs)"

text \<open>Every block with the offset of its payload.\<close>

fun layout :: "int \<Rightarrow> (int \<times> bool) list \<Rightarrow> (int \<times> int \<times> bool) list" where
  "layout x [] = []"
| "layout x (b # bs) = (x, fst b, snd b) # layout (x + fst b) bs"

definition heap_end :: "(int \<times> bool) list \<Rightarrow> int" where
  "heap_end bs = 96 + sum_list (map fst bs)"

text \<open>
  The tags of the heap: the prologue, the blocks and the epilogue, which ends at the
  break. The arena lies below 4 GiB from \<open>heap_listp\<close>, so that every size fits a tag.
\<close>

definition tags_ok :: "state \<Rightarrow> (int \<times> bool) list \<Rightarrow> bool" where
  "tags_ok s bs =
     (al8 (heap_listp s) \<and> 8 \<le> uint (heap_listp s) \<and>
      uint (heap_listp s) + heap_end bs < 2 ^ 64 \<and> heap_end bs < 2 ^ 32 \<and>
      mem_brk s = off (heap_listp s) (heap_end bs) \<and>
      GET (mem s) (off (heap_listp s) (- 4)) = 97 \<and>
      GET (mem s) (off (heap_listp s) 88) = 97 \<and>
      blocks_ok (mem s) (heap_listp s) 96 bs)"

definition class_of :: "int \<Rightarrow> nat" where
  "class_of n =
     (if n \<le> 16 then 0 else if n \<le> 32 then 1 else if n \<le> 64 then 2
      else if n \<le> 128 then 3 else if n \<le> 256 then 4 else if n \<le> 512 then 5
      else if n \<le> 1024 then 6 else if n \<le> 2048 then 7 else if n \<le> 4096 then 8
      else if n \<le> 8192 then 9 else 10)"

definition head_of :: "state \<Rightarrow> nat \<Rightarrow> addr" where
  "head_of s k =
     (if k = 0 then free_list_head_16 s else if k = 1 then free_list_head_32 s
      else if k = 2 then free_list_head_64 s else if k = 3 then free_list_head_128 s
      else if k = 4 then free_list_head_256 s else if k = 5 then free_list_head_512 s
      else if k = 6 then free_list_head_1024 s else if k = 7 then free_list_head_2048 s
      else if k = 8 then free_list_head_4096 s else if k = 9 then free_list_head_8192 s
      else free_list_head_max s)"

text \<open>The \<open>next\<close> links lead from the node at offset \<open>p\<close> through the nodes \<open>xs\<close> to null.\<close>

fun chain :: "memory \<Rightarrow> addr \<Rightarrow> int \<Rightarrow> int list \<Rightarrow> bool" where
  "chain m B p [] = (load_ptr m (off B p) = 0)"
| "chain m B p (x # xs) = (load_ptr m (off B p) = off B x \<and> chain m B x xs)"

text \<open>The \<open>prev\<close> link of every node of \<open>xs\<close> leads to the node before it.\<close>

fun preds :: "memory \<Rightarrow> addr \<Rightarrow> int \<Rightarrow> int list \<Rightarrow> bool" where
  "preds m B p [] = True"
| "preds m B p (x # xs) = (load_ptr m (off B (x + 8)) = off B p \<and> preds m B x xs)"

text \<open>
  The list of class \<open>k\<close>: its links start at the anchor, the tracked head is its last node
  (the anchor when it is empty), and all classes but the smallest have \<open>prev\<close> links.
\<close>

definition list_ok :: "state \<Rightarrow> nat \<Rightarrow> int list \<Rightarrow> bool" where
  "list_ok s k xs =
     (chain (mem s) (heap_listp s) (8 * int k) xs \<and>
      (k = 0 \<or> preds (mem s) (heap_listp s) (8 * int k) xs) \<and>
      head_of s k = off (heap_listp s) (last (8 * int k # xs)))"

text \<open>The offsets of the free blocks of class \<open>k\<close>, in address order.\<close>

definition free_offs :: "nat \<Rightarrow> (int \<times> bool) list \<Rightarrow> int list" where
  "free_offs k bs =
     map fst (filter (\<lambda>e. \<not> snd (snd e) \<and> class_of (fst (snd e)) = k) (layout 96 bs))"

text \<open>Each free list holds, once each, the free blocks of its class.\<close>

definition lists_ok :: "state \<Rightarrow> (int \<times> bool) list \<Rightarrow> int list list \<Rightarrow> bool" where
  "lists_ok s bs fl =
     (length fl = 11 \<and>
      list_all (\<lambda>k. list_ok s k (fl ! k) \<and> distinct (fl ! k) \<and>
                    set (fl ! k) = set (free_offs k bs)) [0..<11])"

fun no_adj_free :: "(int \<times> bool) list \<Rightarrow> bool" where
  "no_adj_free (b # c # bs) = ((snd b \<or> snd c) \<and> no_adj_free (c # bs))"
| "no_adj_free bs = True"

definition heap_ok :: "state \<Rightarrow> (int \<times> bool) list \<Rightarrow> int list list \<Rightarrow> bool" where
  "heap_ok s bs fl = (tags_ok s bs \<and> lists_ok s bs fl \<and> no_adj_free bs)"

section \<open>Footprints\<close>

text \<open>An offset of a four-byte cell of the arena.\<close>

definition cell_ok :: "int \<Rightarrow> bool" where
  "cell_ok c = (- 8 \<le> c \<and> c < 2 ^ 32 \<and> 4 dvd c)"

text \<open>The offsets of the tags of the blocks from offset \<open>x\<close> on, the epilogue header included.\<close>

fun tcells :: "int \<Rightarrow> (int \<times> bool) list \<Rightarrow> int set" where
  "tcells x [] = {x - 4}"
| "tcells x (b # bs) = {x - 4, x + fst b - 8} \<union> tcells (x + fst b) bs"

text \<open>
  The offsets of the four-byte cells that hold the links of the list of class \<open>k\<close>: the
  anchor and the \<open>next\<close> field of every node, and the \<open>prev\<close> fields in all classes but the
  smallest.
\<close>

definition lcells :: "nat \<Rightarrow> int list \<Rightarrow> int set" where
  "lcells k xs =
     {8 * int k, 8 * int k + 4} \<union> (\<Union>x\<in>set xs. {x, x + 4}) \<union>
     (if k = 0 then {} else (\<Union>x\<in>set xs. {x + 8, x + 12}))"

definition all_lcells :: "int list list \<Rightarrow> int set" where
  "all_lcells fl = (\<Union>k\<in>{0..<11}. lcells k (fl ! k))"

text \<open>The sizes of the blocks are sizes of blocks.\<close>

definition sizes_ok :: "(int \<times> bool) list \<Rightarrow> bool" where
  "sizes_ok bs = (\<forall>b\<in>set bs. 16 \<le> fst b \<and> 8 dvd fst b)"

text \<open>Every node of the lists is a block of \<open>bs\<close> whose size is of the class of its list.\<close>

definition nodes_in :: "int list list \<Rightarrow> (int \<times> bool) list \<Rightarrow> bool" where
  "nodes_in fl bs =
     (\<forall>k<11. \<forall>y\<in>set (fl ! k). \<exists>n a. (y, n, a) \<in> set (layout 96 bs) \<and> class_of n = k)"

text \<open>The \<open>next\<close> links lead from the node at offset \<open>p\<close> through the nodes \<open>xs\<close>.\<close>

fun seg :: "memory \<Rightarrow> addr \<Rightarrow> int \<Rightarrow> int list \<Rightarrow> bool" where
  "seg m B p [] = True"
| "seg m B p (x # xs) = (load_ptr m (off B p) = off B x \<and> seg m B x xs)"

text \<open>The links alone: every list is a list, without repetition.\<close>

definition links_ok :: "state \<Rightarrow> int list list \<Rightarrow> bool" where
  "links_ok s fl =
     (length fl = 11 \<and> (\<forall>k<11. list_ok s k (fl ! k) \<and> distinct (fl ! k)))"

text \<open>
  The arena of a heap with blocks \<open>bs\<close> at \<open>B\<close>: aligned, not at address 0, below 4 GiB and
  within the address space, and the sizes of the blocks are sizes of blocks.
\<close>

definition arena_ok :: "addr \<Rightarrow> (int \<times> bool) list \<Rightarrow> bool" where
  "arena_ok B bs =
     (al8 B \<and> 8 \<le> uint B \<and> uint B + heap_end bs < 2 ^ 64 \<and> heap_end bs < 2 ^ 32 \<and>
      sizes_ok bs)"

text \<open>The offsets at which the links of the list of class \<open>k\<close> are stored.\<close>

definition cells8 :: "nat \<Rightarrow> int list \<Rightarrow> int set" where
  "cells8 k xs = {8 * int k} \<union> set xs \<union> (if k = 0 then {} else (\<lambda>x. x + 8) ` set xs)"

text \<open>The lists hold exactly the free blocks of \<open>bs\<close>, each in the list of its class.\<close>

definition cover :: "int list list \<Rightarrow> (int \<times> bool) list \<Rightarrow> bool" where
  "cover fl bs =
     (\<forall>k<11. set (fl ! k) = {y. \<exists>n. (y, n, False) \<in> set (layout 96 bs) \<and> class_of n = k})"

section \<open>The result of coalescing\<close>

text \<open>
  The freed block of \<open>n\<close> bytes lies between the blocks \<open>pre\<close> and the blocks \<open>post\<close>. It is
  merged with the block before it and with the block after it where these are free;
  \<open>lowest\<close> is the offset of the first of the blocks merged, and \<open>merged\<close> the blocks of the
  heap after the merge.
\<close>

definition free_before :: "(int \<times> bool) list \<Rightarrow> bool" where
  "free_before pre = (pre \<noteq> [] \<and> \<not> snd (last pre))"

definition free_after :: "(int \<times> bool) list \<Rightarrow> bool" where
  "free_after post = (post \<noteq> [] \<and> \<not> snd (hd post))"

definition lowest :: "(int \<times> bool) list \<Rightarrow> int" where
  "lowest pre = (if free_before pre then heap_end pre - fst (last pre) else heap_end pre)"

definition merged :: "(int \<times> bool) list \<Rightarrow> int \<Rightarrow> (int \<times> bool) list \<Rightarrow> (int \<times> bool) list" where
  "merged pre n post =
     (if free_before pre then butlast pre else pre) @
     ((if free_before pre then fst (last pre) else 0) + n +
      (if free_after post then fst (hd post) else 0), False) #
     (if free_after post then tl post else post)"

text \<open>
  A heap at the moment \<open>free\<close> calls \<open>coalesce\<close>: a block of 32 bytes was allocated at the
  end of the first chunk, behind the free remainder of 480 bytes; \<open>free\<close> has written its
  tags and put it on the list of its class.
\<close>

definition merge_scenario :: "state option" where
  "merge_scenario =
     do {
       s \<leftarrow> lazy_init (boot (\<lambda>_. 0) 0x2000);
       r \<leftarrow> malloc s 24;
       let bp = snd r;
       let sz = block_size (fst r) bp;
       let s2 = put_tag (fst r) (HDRP bp) (PACK sz 0);
       let s3 = put_tag s2 (FTRP (mem s2) bp) (PACK sz 0);
       Some (add_to_free_list s3 bp)
     }"

definition merge_heap :: state where
  "merge_heap = (case merge_scenario of Some s \<Rightarrow> s | None \<Rightarrow> boot (\<lambda>_. 0) 0x2000)"

text \<open>The freshly initialised heap: one free block of 512 bytes.\<close>

definition fresh_heap :: state where
  "fresh_heap =
     (case lazy_init (boot (\<lambda>_. 0) 0x2000) of Some s \<Rightarrow> s | None \<Rightarrow> boot (\<lambda>_. 0) 0x2000)"

text \<open>The arena cannot grow beyond 4 GiB from \<open>heap_listp\<close>, so every block size fits a tag.\<close>

definition limit_ok :: "state \<Rightarrow> bool" where
  "limit_ok s = (uint (mem_max_addr s) < uint (heap_listp s) + 2 ^ 32)"


section \<open>Reading and writing tags and links\<close>

lemma bit_byte64:
  "bit (push_bit i (ucast (ucast (drop_bit i v) :: 8 word)) :: 64 word) n =
     (i \<le> n \<and> n < i + 8 \<and> n < 64 \<and> bit (v::64 word) n)"
  by (auto simp add: bit_push_bit_iff bit_ucast_iff bit_drop_bit_eq)

lemma bit_byte64_0: "bit (ucast (ucast v :: 8 word) :: 64 word) n = (n < 8 \<and> bit (v::64 word) n)"
  by (auto simp add: bit_ucast_iff)

lemma bit_byte32:
  "bit (push_bit i (ucast (ucast (drop_bit i v) :: 8 word)) :: 32 word) n =
     (i \<le> n \<and> n < i + 8 \<and> n < 32 \<and> bit (v::64 word) n)"
  by (auto simp add: bit_push_bit_iff bit_ucast_iff bit_drop_bit_eq)

lemma bit_byte32_0: "bit (ucast (ucast v :: 8 word) :: 32 word) n = (n < 8 \<and> bit (v::64 word) n)"
  by (auto simp add: bit_ucast_iff)

lemma join8:
  "ucast (ucast v :: 8 word) OR push_bit 8 (ucast (ucast (drop_bit 8 v) :: 8 word)) OR
   push_bit 16 (ucast (ucast (drop_bit 16 v) :: 8 word)) OR
   push_bit 24 (ucast (ucast (drop_bit 24 v) :: 8 word)) OR
   push_bit 32 (ucast (ucast (drop_bit 32 v) :: 8 word)) OR
   push_bit 40 (ucast (ucast (drop_bit 40 v) :: 8 word)) OR
   push_bit 48 (ucast (ucast (drop_bit 48 v) :: 8 word)) OR
   push_bit 56 (ucast (ucast (drop_bit 56 v) :: 8 word)) = (v::64 word)"
  apply (rule bit_word_eqI)
  apply (simp only: bit_or_iff bit_byte64 bit_byte64_0)
  apply simp
  apply linarith
  done

lemma join4:
  "ucast (ucast v :: 8 word) OR push_bit 8 (ucast (ucast (drop_bit 8 v) :: 8 word)) OR
   push_bit 16 (ucast (ucast (drop_bit 16 v) :: 8 word)) OR
   push_bit 24 (ucast (ucast (drop_bit 24 v) :: 8 word)) = (ucast (v::64 word) :: 32 word)"
  apply (rule bit_word_eqI)
  apply (simp only: bit_or_iff bit_byte32 bit_byte32_0 bit_ucast_iff)
  apply simp
  apply linarith
  done

lemma al4_uint_add:
  assumes "al4 p" "uint i < 4"
  shows "uint (p + i) = uint p + uint i"
proof -
  have "uint p < 18446744073709551616" using uint_lt2p [of p] by simp
  moreover have "4 dvd uint p" using assms by (simp add: al4_def)
  ultimately have "uint p \<le> 18446744073709551616 - 4" by presburger
  then have "uint p + uint i < 2 ^ LENGTH(64)" using assms(2) by simp
  then show ?thesis by (simp only: uint_add_lem)
qed

lemma al8_uint_add:
  assumes "al8 p" "uint i < 8"
  shows "uint (p + i) = uint p + uint i"
proof -
  have "uint p < 18446744073709551616" using uint_lt2p [of p] by simp
  moreover have "8 dvd uint p" using assms by (simp add: al8_def)
  ultimately have "uint p \<le> 18446744073709551616 - 8" by presburger
  then have "uint p + uint i < 2 ^ LENGTH(64)" using assms(2) by simp
  then show ?thesis by (simp only: uint_add_lem)
qed

lemma cell_disj:
  assumes "al4 p" "al4 q" "p \<noteq> q" "uint i < 4" "uint j < 4"
  shows "p + i \<noteq> q + j"
proof
  assume "p + i = q + j"
  then have "uint p + uint i = uint q + uint j"
    using al4_uint_add [OF assms(1,4)] al4_uint_add [OF assms(2,5)] by simp
  moreover have "4 dvd uint p" "4 dvd uint q" using assms by (simp_all add: al4_def)
  moreover have "0 \<le> uint i" "0 \<le> uint j" by simp_all
  ultimately have "uint p = uint q" using assms(4,5) by presburger
  then show False using assms(3) by (simp add: word_uint_eq_iff)
qed

lemma PUT_other:
  assumes "al4 p" "al4 q" "p \<noteq> q" "uint i < 4"
  shows "PUT m q v (p + i) = m (p + i)"
proof -
  have "p + i \<noteq> q + 0" "p + i \<noteq> q + 1" "p + i \<noteq> q + 2" "p + i \<noteq> q + 3"
    using assms by (intro cell_disj; simp)+
  then show ?thesis by (simp add: PUT_def)
qed

lemma GET_PUT_same: "GET (PUT m p v) p = ucast v"
proof -
  have "GET (PUT m p v) p =
      ucast (ucast v :: 8 word) OR push_bit 8 (ucast (ucast (drop_bit 8 v) :: 8 word)) OR
      push_bit 16 (ucast (ucast (drop_bit 16 v) :: 8 word)) OR
      push_bit 24 (ucast (ucast (drop_bit 24 v) :: 8 word))"
    by (simp add: GET_def PUT_def)
  then show ?thesis by (simp only: join4)
qed

lemma GET_PUT_other:
  assumes "al4 p" "al4 q" "p \<noteq> q"
  shows "GET (PUT m q v) p = GET m p"
  using PUT_other [OF assms, of 0 m v] PUT_other [OF assms, of 1 m v]
    PUT_other [OF assms, of 2 m v] PUT_other [OF assms, of 3 m v]
  by (simp add: GET_def)

lemma GET_PUT:
  "al4 p \<Longrightarrow> al4 q \<Longrightarrow> GET (PUT m q v) p = (if p = q then ucast v else GET m p)"
  by (simp add: GET_PUT_same GET_PUT_other)

lemma store_ptr_PUT: "store_ptr m q v = PUT (PUT m q v) (q + 4) (drop_bit 32 v)"
  by (simp add: store_ptr_def PUT_def add.assoc drop_bit_drop_bit)

lemma al8_al4: "al8 p \<Longrightarrow> al4 p"
  unfolding al8_def al4_def by presburger

lemma al4_plus4:
  assumes "al4 p"
  shows "al4 (p + 4)"
proof -
  have "uint (p + 4) = (uint p + 4) mod 2 ^ 64" by (simp add: uint_word_ariths)
  moreover have "(4::int) dvd uint p + 4" using assms unfolding al4_def by simp
  moreover have "(4::int) dvd 2 ^ 64" by simp
  ultimately show ?thesis unfolding al4_def by (simp only: dvd_mod)
qed

lemma al8_plus4_neq:
  assumes "al8 p" "al8 q"
  shows "p \<noteq> q + 4"
proof
  assume "p = q + 4"
  then have "uint p = uint q + 4" using al8_uint_add [OF assms(2), of 4] by simp
  then show False using assms unfolding al8_def by presburger
qed

lemma store_other:
  assumes "al4 p" "al8 q" "p \<noteq> q" "p \<noteq> q + 4" "uint i < 4"
  shows "store_ptr m q v (p + i) = m (p + i)"
  unfolding store_ptr_PUT
  using PUT_other [OF assms(1) al4_plus4 [OF al8_al4 [OF assms(2)]] assms(4,5)]
        PUT_other [OF assms(1) al8_al4 [OF assms(2)] assms(3,5)]
  by simp

lemma GET_cong:
  "m' p = m p \<Longrightarrow> m' (p + 1) = m (p + 1) \<Longrightarrow> m' (p + 2) = m (p + 2) \<Longrightarrow>
   m' (p + 3) = m (p + 3) \<Longrightarrow> GET m' p = GET m p"
  by (simp add: GET_def)

lemma load_cong:
  "m' p = m p \<Longrightarrow> m' (p + 1) = m (p + 1) \<Longrightarrow> m' (p + 2) = m (p + 2) \<Longrightarrow>
   m' (p + 3) = m (p + 3) \<Longrightarrow> m' (p + 4) = m (p + 4) \<Longrightarrow> m' (p + 5) = m (p + 5) \<Longrightarrow>
   m' (p + 6) = m (p + 6) \<Longrightarrow> m' (p + 7) = m (p + 7) \<Longrightarrow> load_ptr m' p = load_ptr m p"
  by (simp add: load_ptr_def)

lemma GET_store_other:
  assumes "al4 p" "al8 q" "p \<noteq> q" "p \<noteq> q + 4"
  shows "GET (store_ptr m q v) p = GET m p"
  using store_other [OF assms, of 0 m v] store_other [OF assms, of 1 m v]
        store_other [OF assms, of 2 m v] store_other [OF assms, of 3 m v]
  by (intro GET_cong) simp_all

lemma load_store_same: "load_ptr (store_ptr m p v) p = v"
proof -
  have "load_ptr (store_ptr m p v) p =
      ucast (ucast v :: 8 word) OR push_bit 8 (ucast (ucast (drop_bit 8 v) :: 8 word)) OR
      push_bit 16 (ucast (ucast (drop_bit 16 v) :: 8 word)) OR
      push_bit 24 (ucast (ucast (drop_bit 24 v) :: 8 word)) OR
      push_bit 32 (ucast (ucast (drop_bit 32 v) :: 8 word)) OR
      push_bit 40 (ucast (ucast (drop_bit 40 v) :: 8 word)) OR
      push_bit 48 (ucast (ucast (drop_bit 48 v) :: 8 word)) OR
      push_bit 56 (ucast (ucast (drop_bit 56 v) :: 8 word))"
    by (simp add: load_ptr_def store_ptr_def)
  then show ?thesis by (simp only: join8)
qed

lemma load_store_other:
  assumes "al8 p" "al8 q" "p \<noteq> q"
  shows "load_ptr (store_ptr m q v) p = load_ptr m p"
proof -
  note a = al8_al4 [OF assms(1)]
  note b = al4_plus4 [OF a]
  have n1: "p \<noteq> q + 4" using al8_plus4_neq [OF assms(1,2)] .
  have n2: "p + 4 \<noteq> q" using al8_plus4_neq [OF assms(2,1)] by auto
  have n3: "p + 4 \<noteq> q + 4" using assms(3) by simp
  show ?thesis
    using store_other [OF a assms(2,3) n1, of 0 m v] store_other [OF a assms(2,3) n1, of 1 m v]
        store_other [OF a assms(2,3) n1, of 2 m v] store_other [OF a assms(2,3) n1, of 3 m v]
        store_other [OF b assms(2) n2 n3, of 0 m v] store_other [OF b assms(2) n2 n3, of 1 m v]
        store_other [OF b assms(2) n2 n3, of 2 m v] store_other [OF b assms(2) n2 n3, of 3 m v]
    by (intro load_cong) (simp_all add: add.assoc)
qed

lemma load_PUT_other:
  assumes "al8 p" "al4 q" "q \<noteq> p" "q \<noteq> p + 4"
  shows "load_ptr (PUT m q v) p = load_ptr m p"
proof -
  note a = al8_al4 [OF assms(1)]
  note b = al4_plus4 [OF a]
  have n1: "p \<noteq> q" using assms(3) by simp
  have n2: "p + 4 \<noteq> q" using assms(4) by simp
  show ?thesis
    using PUT_other [OF a assms(2) n1, of 0 m v] PUT_other [OF a assms(2) n1, of 1 m v]
        PUT_other [OF a assms(2) n1, of 2 m v] PUT_other [OF a assms(2) n1, of 3 m v]
        PUT_other [OF b assms(2) n2, of 0 m v] PUT_other [OF b assms(2) n2, of 1 m v]
        PUT_other [OF b assms(2) n2, of 2 m v] PUT_other [OF b assms(2) n2, of 3 m v]
    by (intro load_cong) (simp_all add: add.assoc)
qed

lemma GET_store_lo: "al8 q \<Longrightarrow> GET (store_ptr m q v) q = ucast v"
  unfolding store_ptr_PUT
  by (subst GET_PUT_other) (auto simp: al8_al4 al4_plus4 GET_PUT_same)

lemma GET_store_hi: "GET (store_ptr m q v) (q + 4) = ucast (drop_bit 32 v)"
  unfolding store_ptr_PUT by (simp add: GET_PUT_same)

lemma GET_store:
  "al4 p \<Longrightarrow> al8 q \<Longrightarrow>
   GET (store_ptr m q v) p =
     (if p = q then ucast v else if p = q + 4 then ucast (drop_bit 32 v) else GET m p)"
  by (auto simp: GET_store_lo GET_store_hi GET_store_other)

lemma load_store:
  "al8 p \<Longrightarrow> al8 q \<Longrightarrow> load_ptr (store_ptr m q v) p = (if p = q then v else load_ptr m p)"
  by (auto simp: load_store_same load_store_other)

section \<open>Running the allocator on a concrete heap\<close>

text \<open>
  The lemmas below let the simplifier run the model on a concrete state: the argument of
  a \<open>let\<close>, of a bind and of a case is evaluated before the body is looked at.
\<close>

lemma GET_zero: "GET (\<lambda>_. 0) p = 0"
  by (simp add: GET_def)

lemma load_zero: "load_ptr (\<lambda>_. 0) p = 0"
  by (simp add: load_ptr_def)

lemma GET_55: "GET (\<lambda>_. 0x55) p = 0x55555555"
  by (simp add: GET_def)

lemma load_55: "load_ptr (\<lambda>_. 0x55) p = 0x5555555555555555"
  by (simp add: load_ptr_def)

lemma PUT_app:
  "PUT m q v a =
     (if a = q + 3 then ucast (drop_bit 24 v) else if a = q + 2 then ucast (drop_bit 16 v)
      else if a = q + 1 then ucast (drop_bit 8 v) else if a = q then ucast v else m a)"
  by (simp add: PUT_def)

lemma store_ptr_app:
  "store_ptr m q v a =
     (if a = q + 7 then ucast (drop_bit 56 v) else if a = q + 6 then ucast (drop_bit 48 v)
      else if a = q + 5 then ucast (drop_bit 40 v) else if a = q + 4 then ucast (drop_bit 32 v)
      else if a = q + 3 then ucast (drop_bit 24 v) else if a = q + 2 then ucast (drop_bit 16 v)
      else if a = q + 1 then ucast (drop_bit 8 v) else if a = q then ucast v else m a)"
  by (simp add: store_ptr_def)

lemma memset_app: "memset m p c n a = (if a - p < n then c else m a)"
  by (simp add: memset_def)

lemma memcpy_app: "memcpy m dst src n a = (if a - dst < n then m (src + (a - dst)) else m a)"
  by (simp add: memcpy_def)

lemma GET_memset:
  "GET (memset m p c n) q =
     ucast (memset m p c n q) OR push_bit 8 (ucast (memset m p c n (q + 1))) OR
     push_bit 16 (ucast (memset m p c n (q + 2))) OR push_bit 24 (ucast (memset m p c n (q + 3)))"
  by (simp add: GET_def)

lemma GET_memcpy:
  "GET (memcpy m d s n) q =
     ucast (memcpy m d s n q) OR push_bit 8 (ucast (memcpy m d s n (q + 1))) OR
     push_bit 16 (ucast (memcpy m d s n (q + 2))) OR push_bit 24 (ucast (memcpy m d s n (q + 3)))"
  by (simp add: GET_def)

lemma load_memcpy:
  "load_ptr (memcpy m d s n) p =
     ucast (memcpy m d s n p) OR push_bit 8 (ucast (memcpy m d s n (p + 1))) OR
     push_bit 16 (ucast (memcpy m d s n (p + 2))) OR push_bit 24 (ucast (memcpy m d s n (p + 3))) OR
     push_bit 32 (ucast (memcpy m d s n (p + 4))) OR push_bit 40 (ucast (memcpy m d s n (p + 5))) OR
     push_bit 48 (ucast (memcpy m d s n (p + 6))) OR push_bit 56 (ucast (memcpy m d s n (p + 7)))"
  by (simp add: load_ptr_def)

lemma load_memset:
  "load_ptr (memset m d c n) p =
     ucast (memset m d c n p) OR push_bit 8 (ucast (memset m d c n (p + 1))) OR
     push_bit 16 (ucast (memset m d c n (p + 2))) OR push_bit 24 (ucast (memset m d c n (p + 3))) OR
     push_bit 32 (ucast (memset m d c n (p + 4))) OR push_bit 40 (ucast (memset m d c n (p + 5))) OR
     push_bit 48 (ucast (memset m d c n (p + 6))) OR push_bit 56 (ucast (memset m d c n (p + 7)))"
  by (simp add: load_ptr_def)

lemma bind_weak_cong: "a = b \<Longrightarrow> Option.bind a f = Option.bind b f"
  by simp

lemma case_prod_weak_cong: "p = q \<Longrightarrow> case_prod f p = case_prod f q"
  by simp

lemma map_option_weak_cong: "p = q \<Longrightarrow> map_option f p = map_option f q"
  by simp

lemmas run_cong = let_weak_cong bind_weak_cong case_prod_weak_cong map_option_weak_cong
  option.case_cong_weak

lemmas run_defs = mm_init_def mem_sbrk_def put_tag_def init_anchors_def extend_heap_def
  extend_size_def add_to_free_list_def coalesce_def remove_frome_free_list_def
  find_list_head_def find_list_tail_def set_list_head_def block_size_def GET_SIZE_def
  GET_ALLOC_def HDRP_def FTRP_def NEXT_BLKP_def PREV_BLKP_def GET_PRED_PTR_def
  GET_NEXT_PTR_def PUT_PRED_PTR_def PUT_NEXT_PTR_def PACK_def WSIZE_def DSIZE_def
  CHUNKSIZE_def MAX_macro_def malloc_def free_def calloc_def realloc_def realloc_fallback_def
  place_def find_fit_def lazy_init_def adjust_size_def boot_def
  find_pred.simps first_fit_scan.simps best_fit_scan.simps best_fit_loop.simps
  first_fit_loop.simps

lemmas run_mem = Let_def GET_PUT GET_store load_store load_PUT_other GET_zero load_zero GET_55
  load_55 al4_def al8_def PUT_app store_ptr_app memset_app memcpy_app GET_memset GET_memcpy
  load_memcpy load_memset

section \<open>Offsets\<close>

lemma off_0: "off B 0 = B"
  by (simp add: off_def)

lemma off_add_num [simp]: "off B x + numeral k = off B (x + numeral k)"
  by (simp add: off_def)

lemma off_sub_num [simp]: "off B x - numeral k = off B (x - numeral k)"
  by (simp add: off_def)

lemma off_add_int: "off B x + word_of_int y = off B (x + y)"
  by (simp add: off_def)

lemma off_sub_int: "off B x - word_of_int y = off B (x - y)"
  by (simp add: off_def)

lemma off_inj:
  assumes "\<bar>x - y\<bar> < 2 ^ 64"
  shows "(off B x = off B y) = (x = y)"
proof
  assume "off B x = off B y"
  then have "(word_of_int x :: 64 word) = word_of_int y" by (simp add: off_def)
  then have "take_bit 64 x = take_bit 64 y" by (simp add: word_of_int_eq_iff)
  then have "x mod 2 ^ 64 = y mod 2 ^ 64" by (simp add: take_bit_eq_mod)
  then have d: "(2::int) ^ 64 dvd x - y" by (simp add: mod_eq_dvd_iff)
  show "x = y"
  proof (rule ccontr)
    assume "x \<noteq> y"
    then have "x - y \<noteq> 0" by simp
    from dvd_imp_le_int [OF this d] assms show False by simp
  qed
qed simp

lemma al8_off: "al8 B \<Longrightarrow> 8 dvd x \<Longrightarrow> al8 (off B x)"
proof -
  assume a: "al8 B" "8 dvd x"
  have "uint (off B x) = (uint B + x) mod 2 ^ 64"
    by (simp add: off_def uint_word_ariths uint_word_of_int mod_add_right_eq)
  moreover have "(8::int) dvd uint B + x" using a by (simp add: al8_def)
  moreover have "(8::int) dvd 2 ^ 64" by simp
  ultimately show ?thesis unfolding al8_def by (simp only: dvd_mod)
qed

lemma al4_off: "al8 B \<Longrightarrow> 4 dvd x \<Longrightarrow> al4 (off B x)"
proof -
  assume a: "al8 B" "4 dvd x"
  have "uint (off B x) = (uint B + x) mod 2 ^ 64"
    by (simp add: off_def uint_word_ariths uint_word_of_int mod_add_right_eq)
  moreover have "(4::int) dvd uint B" using a(1) unfolding al8_def by presburger
  then have "(4::int) dvd uint B + x" using a(2) by simp
  moreover have "(4::int) dvd 2 ^ 64" by simp
  ultimately show ?thesis unfolding al4_def by (simp only: dvd_mod)
qed

lemma uint_off:
  assumes "0 \<le> uint B + x" "uint B + x < 2 ^ 64"
  shows "uint (off B x) = uint B + x"
proof -
  have "uint (off B x) = (uint B + x) mod 2 ^ 64"
    by (simp add: off_def uint_word_ariths uint_word_of_int mod_add_right_eq)
  then show ?thesis using assms by simp
qed

lemma off_nonzero:
  assumes "0 < uint B + x" "uint B + x < 2 ^ 64"
  shows "off B x \<noteq> 0"
proof
  assume "off B x = 0"
  then have "uint (off B x) = 0" by simp
  then show False using uint_off [of B x] assms by simp
qed

section \<open>Tags\<close>

lemma bit7: "bit (7::32 word) i = (i < 3)"
proof -
  have e: "(7::32 word) = mask 3" by (simp add: mask_eq_exp_minus_1)
  show ?thesis unfolding e by (auto simp add: bit_mask_iff)
qed

lemma bit_m8: "bit (- 8 :: 32 word) i = (3 \<le> i \<and> i < 32)"
proof -
  have e: "(- 8 :: 32 word) = NOT (mask 3)" by (simp add: mask_eq_exp_minus_1)
  show ?thesis unfolding e by (auto simp add: bit_not_iff bit_mask_iff)
qed

lemma bit_m8_int: "bit (- 8 :: int) i = (3 \<le> i)"
proof -
  have e: "(- 8 :: int) = NOT (mask 3)" by (simp add: mask_eq_exp_minus_1)
  show ?thesis unfolding e by (auto simp add: bit_not_iff bit_mask_iff)
qed

lemma bit1: "bit (1::32 word) i = (i = 0)"
  by (simp add: bit_1_iff)

lemma bit_mult8:
  assumes "8 dvd (n::int)"
  shows "bit n i = (3 \<le> i \<and> bit (n div 8) (i - 3))"
proof -
  have "n = push_bit 3 (n div 8)" using assms by (simp add: push_bit_eq_mult)
  then have "bit n i = bit (push_bit 3 (n div 8)) i" by simp
  then show ?thesis by (simp add: bit_push_bit_iff)
qed

lemma tag_and_not7:
  assumes "8 dvd n"
  shows "tag n a AND - 8 = word_of_int n"
proof (rule bit_word_eqI)
  fix i assume "i < LENGTH(32)"
  then show "bit (tag n a AND - 8) i = bit (word_of_int n :: 32 word) i"
    using bit_mult8 [OF assms, of i]
    by (auto simp add: tag_def bit_and_iff bit_or_iff bit_m8 bit_m8_int bit1 bit_word_of_int_iff)
qed

lemma tag_and_1:
  assumes "8 dvd n"
  shows "tag n a AND 1 = (if a then 1 else 0)"
proof (rule bit_word_eqI)
  fix i assume "i < LENGTH(32)"
  then show "bit (tag n a AND 1) i = bit (if a then 1 else 0 :: 32 word) i"
    using bit_mult8 [OF assms, of i]
    by (auto simp add: tag_def bit_and_iff bit_or_iff bit1 bit_word_of_int_iff)
qed

lemma ucast_word_of_int_32_64:
  assumes "0 \<le> n" "n < 2 ^ 32"
  shows "(ucast (word_of_int n :: 32 word) :: 64 word) = word_of_int n"
proof -
  have "uint (word_of_int n :: 32 word) = n"
    using assms by (simp add: uint_word_of_int take_bit_eq_mod)
  then show ?thesis by (simp add: ucast_eq)
qed

lemma tag_size:
  assumes "8 dvd n" "0 \<le> n" "n < 2 ^ 32"
  shows "(ucast (tag n a AND - 8) :: 64 word) = word_of_int n"
  using assms by (simp only: tag_and_not7 ucast_word_of_int_32_64)

lemma GET_SIZE_tag:
  assumes "GET m p = tag n a" "8 dvd n" "0 \<le> n" "n < 2 ^ 32"
  shows "(ucast (GET_SIZE m p) :: 64 word) = word_of_int n" "GET_SIZE m p = word_of_int n"
  using assms tag_size [of n a] tag_and_not7 [of n a] by (simp_all add: GET_SIZE_def)

lemma GET_ALLOC_tag:
  assumes "GET m p = tag n a" "8 dvd n"
  shows "GET_ALLOC m p = (if a then 1 else 0)"
  using assms tag_and_1 [of n a] by (simp add: GET_ALLOC_def)

lemma ucast_PACK:
  "(ucast (PACK (word_of_int n) 1) :: 32 word) = tag n True"
  "(ucast (PACK (word_of_int n) 0) :: 32 word) = tag n False"
proof -
  have "(ucast (word_of_int n :: 64 word) :: 32 word) = word_of_int n"
    by (rule bit_word_eqI) (auto simp add: bit_ucast_iff bit_word_of_int_iff)
  then show "(ucast (PACK (word_of_int n) 1) :: 32 word) = tag n True"
    "(ucast (PACK (word_of_int n) 0) :: 32 word) = tag n False"
    by (simp_all add: PACK_def tag_def unsigned_or_eq)
qed

lemma word_le_uint_num:
  "((w::64 word) \<le> numeral k) = (uint w \<le> uint (numeral k :: 64 word))"
  by (simp only: word_le_def)

lemma uint_word_of_int_64:
  assumes "0 \<le> n" "n < 2 ^ 64"
  shows "uint (word_of_int n :: 64 word) = n"
  using assms by (simp add: uint_word_of_int take_bit_eq_mod)

section \<open>Size classes and list heads\<close>

lemma find_list_tail_class:
  "find_list_tail s w = off (heap_listp s) (8 * int (class_of (uint w)))"
  by (simp add: find_list_tail_def class_of_def word_le_def DSIZE_def off_def)

lemma find_list_head_class: "find_list_head s w = head_of s (class_of (uint w))"
  by (simp add: find_list_head_def head_of_def class_of_def word_le_def)

lemma class_of_less: "class_of n < 11"
  by (simp add: class_of_def)

section \<open>Blocks of a well-formed heap\<close>

lemma layout_set: "(y, n, a) \<in> set (layout x bs) \<Longrightarrow> (n, a) \<in> set bs"
  by (induction bs arbitrary: x) auto

lemma blocks_ok_lookup:
  assumes "blocks_ok m B x bs" "(y, n, a) \<in> set (layout x bs)"
  shows "16 \<le> n \<and> 8 dvd n \<and> GET m (off B (y - 4)) = tag n a \<and>
         GET m (off B (y + n - 8)) = tag n a \<and> x \<le> y \<and> y + n \<le> x + sum_list (map fst bs)"
  using assms
proof (induction bs arbitrary: x)
  case Nil
  then show ?case by simp
next
  case (Cons b bs)
  have nn: "0 \<le> sum_list (map fst bs)" if "blocks_ok m B z bs" for z
    using that by (induction bs arbitrary: z) (auto intro: add_nonneg_nonneg)
  show ?case
  proof (cases "(y, n, a) = (x, fst b, snd b)")
    case True
    then show ?thesis using Cons.prems(1) nn [of "x + fst b"] by auto
  next
    case False
    then have "(y, n, a) \<in> set (layout (x + fst b) bs)" using Cons.prems(2) by (cases b) auto
    from Cons.IH [OF _ this] Cons.prems(1) show ?thesis by auto
  qed
qed

lemma blocks_ok_epilogue:
  "blocks_ok m B x bs \<Longrightarrow> GET m (off B (x + sum_list (map fst bs) - 4)) = 1"
proof (induction bs arbitrary: x)
  case Nil
  then show ?case by simp
next
  case (Cons b bs)
  have "x + fst b + sum_list (map fst bs) - 4 = x + sum_list (map fst (b # bs)) - 4" by simp
  with Cons.IH [of "x + fst b"] Cons.prems show ?case by simp
qed

lemma free_offs_mem:
  "x \<in> set (free_offs k bs) \<Longrightarrow> \<exists>n. (x, n, False) \<in> set (layout 96 bs) \<and> class_of n = k"
  by (auto simp add: free_offs_def)

lemma lists_okD:
  assumes "lists_ok s bs fl" "k < 11"
  shows "list_ok s k (fl ! k)" "distinct (fl ! k)" "set (fl ! k) = set (free_offs k bs)"
  using assms by (simp_all add: lists_ok_def list_all_iff)

text \<open>What a well-formed heap says about a node of a free list.\<close>

lemma node_facts:
  assumes "tags_ok s bs" "lists_ok s bs fl" "k < 11" "x \<in> set (fl ! k)"
  shows "\<exists>n. (x, n, False) \<in> set (layout 96 bs) \<and> class_of n = k \<and> 16 \<le> n \<and> 8 dvd n \<and>
             n < 2 ^ 32 \<and> 96 \<le> x \<and> x + n \<le> heap_end bs \<and>
             GET (mem s) (off (heap_listp s) (x - 4)) = tag n False \<and>
             GET (mem s) (off (heap_listp s) (x + n - 8)) = tag n False \<and>
             block_size s (off (heap_listp s) x) = word_of_int n \<and>
             off (heap_listp s) x \<noteq> 0"
proof -
  from lists_okD(3) [OF assms(2,3)] assms(4) obtain n
    where n: "(x, n, False) \<in> set (layout 96 bs)" "class_of n = k"
    using free_offs_mem by blast
  have b: "blocks_ok (mem s) (heap_listp s) 96 bs" and e: "heap_end bs < 2 ^ 32"
    and u: "8 \<le> uint (heap_listp s)" "uint (heap_listp s) + heap_end bs < 2 ^ 64"
    using assms(1) by (simp_all add: tags_ok_def)
  from blocks_ok_lookup [OF b n(1)]
  have l: "16 \<le> n" "8 dvd n" "GET (mem s) (off (heap_listp s) (x - 4)) = tag n False"
    "GET (mem s) (off (heap_listp s) (x + n - 8)) = tag n False" "96 \<le> x"
    "x + n \<le> heap_end bs"
    by (simp_all add: heap_end_def)
  have n32: "n < 2 ^ 32" using l e by simp
  have bs: "block_size s (off (heap_listp s) x) = word_of_int n"
    using GET_SIZE_tag(1) [OF l(3) l(2) _ n32] l(1)
    by (simp add: block_size_def HDRP_def WSIZE_def)
  have nz: "off (heap_listp s) x \<noteq> 0"
    using l u by (intro off_nonzero) simp_all
  show ?thesis using n l n32 bs nz by blast
qed

section \<open>The search\<close>

lemma first_fit_scan_none:
  assumes "chain m B p xs"
    "\<forall>x\<in>set xs. off B x \<noteq> 0 \<and> \<not> asize \<le> ucast (GET_SIZE m (HDRP (off B x)))"
  shows "first_fit_scan m asize (load_ptr m (off B p)) = Some 0"
  using assms
proof (induction xs arbitrary: p)
  case Nil
  then show ?case by (subst first_fit_scan.simps) simp
next
  case (Cons x xs)
  have "first_fit_scan m asize (off B x) = first_fit_scan m asize (load_ptr m (off B x))"
    using Cons.prems(2) by (subst first_fit_scan.simps) (simp add: GET_NEXT_PTR_def)
  then show ?case using Cons by simp
qed

lemma best_fit_scan_keep:
  assumes "chain m B p xs"
    "\<forall>x\<in>set xs. off B x \<noteq> 0 \<and>
       \<not> (asize \<le> ucast (GET_SIZE m (HDRP (off B x))) \<and> ucast (GET_SIZE m (HDRP (off B x))) \<le> t)"
  shows "best_fit_scan m asize (load_ptr m (off B p)) t best = Some (t, best)"
  using assms
proof (induction xs arbitrary: p)
  case Nil
  then show ?case by (subst best_fit_scan.simps) simp
next
  case (Cons x xs)
  have "best_fit_scan m asize (off B x) t best =
        best_fit_scan m asize (load_ptr m (off B x)) t best"
    using Cons.prems(2) by (subst best_fit_scan.simps) (auto simp add: GET_NEXT_PTR_def)
  then show ?case using Cons by simp
qed

lemma anchor_offs:
  "B + 2 * DSIZE = off B 16" "B + 3 * DSIZE = off B 24" "B + 4 * DSIZE = off B 32"
  "B + 5 * DSIZE = off B 40" "B + 6 * DSIZE = off B 48" "B + 7 * DSIZE = off B 56"
  "B + 8 * DSIZE = off B 64" "B + 9 * DSIZE = off B 72" "B + 10 * DSIZE = off B 80"
  "B + 11 * DSIZE = off B 88" "off B x + DSIZE = off B (x + 8)"
  by (simp_all add: off_def DSIZE_def)

lemma word_le_of_int:
  assumes "0 \<le> n" "n < 2 ^ 64"
  shows "((w::64 word) \<le> word_of_int n) = (uint w \<le> n)" "((word_of_int n :: 64 word) \<le> w) = (n \<le> uint w)"
  using assms by (simp_all add: word_le_def uint_word_of_int_64)

lemma best_fit_class_none:
  assumes "tags_ok s bs" "lists_ok s bs fl" "k < 11"
    "\<forall>b\<in>set bs. \<not> snd b \<and> uint asize \<le> fst b \<longrightarrow> 2 ^ 30 < fst b"
  shows "best_fit_scan (mem s) asize (GET_NEXT_PTR (mem s) (off (heap_listp s) (8 * int k)))
           (push_bit 30 1) 0 = Some (push_bit 30 1, 0)"
proof -
  have c: "chain (mem s) (heap_listp s) (8 * int k) (fl ! k)"
    using lists_okD(1) [OF assms(2,3)] by (simp add: list_ok_def)
  have "off (heap_listp s) x \<noteq> 0 \<and>
        \<not> (asize \<le> ucast (GET_SIZE (mem s) (HDRP (off (heap_listp s) x))) \<and>
           ucast (GET_SIZE (mem s) (HDRP (off (heap_listp s) x))) \<le> (push_bit 30 1 :: 64 word))"
    if "x \<in> set (fl ! k)" for x
  proof -
    from node_facts [OF assms(1,2,3) that] obtain n where
      n: "(x, n, False) \<in> set (layout 96 bs)" "16 \<le> n" "n < 2 ^ 32"
        "block_size s (off (heap_listp s) x) = word_of_int n" "off (heap_listp s) x \<noteq> 0"
      by blast
    have m: "(n, False) \<in> set bs" using layout_set [OF n(1)] .
    have "\<not> (uint asize \<le> n \<and> n \<le> 2 ^ 30)" using assms(4) m by force
    moreover have "(asize \<le> word_of_int n) = (uint asize \<le> n)"
      using n by (intro word_le_of_int) simp_all
    moreover have "((word_of_int n :: 64 word) \<le> push_bit 30 1) = (n \<le> 2 ^ 30)"
      using n word_le_of_int(2) [of n "push_bit 30 1"] by simp
    ultimately show ?thesis using n(4,5) by (simp add: block_size_def)
  qed
  then show ?thesis
    unfolding GET_NEXT_PTR_def by (intro best_fit_scan_keep [OF c]) blast
qed

lemma first_fit_class_none:
  assumes "tags_ok s bs" "lists_ok s bs fl" "k \<le> 1"
    "\<forall>b\<in>set bs. \<not> snd b \<and> uint asize \<le> fst b \<longrightarrow> 2 ^ 30 < fst b"
  shows "first_fit_scan (mem s) asize (GET_NEXT_PTR (mem s) (off (heap_listp s) (8 * int k)))
           = Some 0"
proof -
  have k: "k < 11" using assms(3) by simp
  have c: "chain (mem s) (heap_listp s) (8 * int k) (fl ! k)"
    using lists_okD(1) [OF assms(2) k] by (simp add: list_ok_def)
  have "off (heap_listp s) x \<noteq> 0 \<and>
        \<not> asize \<le> ucast (GET_SIZE (mem s) (HDRP (off (heap_listp s) x)))"
    if "x \<in> set (fl ! k)" for x
  proof -
    from node_facts [OF assms(1,2) k that] obtain n where
      n: "(x, n, False) \<in> set (layout 96 bs)" "16 \<le> n" "n < 2 ^ 32" "class_of n = k"
        "block_size s (off (heap_listp s) x) = word_of_int n" "off (heap_listp s) x \<noteq> 0"
      by blast
    have m: "(n, False) \<in> set bs" using layout_set [OF n(1)] .
    have "n \<le> 32" using n(4) assms(3) by (simp add: class_of_def split: if_splits)
    then have "\<not> uint asize \<le> n" using assms(4) m by force
    moreover have "(asize \<le> word_of_int n) = (uint asize \<le> n)"
      using n by (intro word_le_of_int) simp_all
    ultimately show ?thesis using n(5,6) by (simp add: block_size_def)
  qed
  then show ?thesis
    unfolding GET_NEXT_PTR_def by (intro first_fit_scan_none [OF c]) blast
qed

lemma off_small_inj:
  "0 \<le> x \<Longrightarrow> x \<le> 88 \<Longrightarrow> 0 \<le> y \<Longrightarrow> y \<le> 88 \<Longrightarrow> (off B x = off B y) = (x = y)"
  by (subst off_inj) simp_all

lemma best_fit_loop_none:
  assumes "tags_ok s bs" "lists_ok s bs fl"
    "\<forall>b\<in>set bs. \<not> snd b \<and> uint asize \<le> fst b \<longrightarrow> 2 ^ 30 < fst b"
  shows "j \<le> 11 \<Longrightarrow>
         best_fit_loop s asize (off (heap_listp s) (8 * int (11 - j))) (push_bit 30 1) 0 = Some 0"
proof (induction j)
  case 0
  show ?case by (subst best_fit_loop.simps) (simp add: anchor_offs)
next
  case (Suc j)
  let ?k = "11 - Suc j"
  have k: "?k < 11" using Suc.prems by simp
  have ne: "off (heap_listp s) (8 * int ?k) \<noteq> off (heap_listp s) 88"
    using k by (subst off_inj) simp_all
  have nx: "8 * int ?k + 8 = 8 * int (11 - j)" using Suc.prems by simp
  show ?case
    using ne best_fit_class_none [OF assms(1,2) k assms(3)] Suc.IH Suc.prems
    by (subst best_fit_loop.simps) (simp add: anchor_offs nx)
qed

lemma first_fit_loop_none:
  assumes "tags_ok s bs" "lists_ok s bs fl" "k < 11"
    "\<forall>b\<in>set bs. \<not> snd b \<and> uint asize \<le> fst b \<longrightarrow> 2 ^ 30 < fst b"
  shows "first_fit_loop s asize (off (heap_listp s) (8 * int k)) = Some 0"
proof -
  have bf: "best_fit_loop s asize (off (heap_listp s) (8 * int j)) (push_bit 30 1) 0 = Some 0"
    if "j \<le> 11" for j
    using best_fit_loop_none [OF assms(1,2,4), of "11 - j"] that by simp
  have hi: "first_fit_loop s asize (off (heap_listp s) (8 * int j)) = Some 0"
    if "2 \<le> j" "j < 11" for j
  proof -
    have "8 * int j = 16 \<or> 8 * int j = 24 \<or> 8 * int j = 32 \<or> 8 * int j = 40 \<or> 8 * int j = 48 \<or>
          8 * int j = 56 \<or> 8 * int j = 64 \<or> 8 * int j = 72 \<or> 8 * int j = 80"
      using that by presburger
    then show ?thesis
      using bf [of j] that
      by (subst first_fit_loop.simps) (auto simp add: anchor_offs)
  qed
  have one: "first_fit_loop s asize (off (heap_listp s) (8 * int 1)) = Some 0"
    using first_fit_class_none [OF assms(1,2) _ assms(4), of 1] hi [of 2]
    by (subst first_fit_loop.simps) (simp add: anchor_offs off_small_inj)
  have zero: "first_fit_loop s asize (off (heap_listp s) (8 * int 0)) = Some 0"
    using first_fit_class_none [OF assms(1,2) _ assms(4), of 0] one
    by (subst first_fit_loop.simps) (simp add: anchor_offs off_small_inj)
  show ?thesis
  proof (cases "2 \<le> k")
    case True
    then show ?thesis using hi assms(3) by simp
  next
    case False
    then have "k = 0 \<or> k = 1" by auto
    then show ?thesis using one zero by auto
  qed
qed

section \<open>Cells at offsets\<close>

lemma cell_ok_al4: "al8 B \<Longrightarrow> cell_ok c \<Longrightarrow> al4 (off B c)"
  by (simp add: cell_ok_def al4_off)

lemma cell_ok_al8: "al8 B \<Longrightarrow> cell_ok c \<Longrightarrow> 8 dvd c \<Longrightarrow> al8 (off B c)"
  by (simp add: al8_off)

lemma cell_ok_bounds: "cell_ok c \<Longrightarrow> - 8 \<le> c \<and> c < 4294967296 \<and> 4 dvd c"
  by (simp add: cell_ok_def)

lemma cell_ok_inj:
  assumes "cell_ok c" "cell_ok t"
  shows "(off B c = off B t) = (c = t)"
proof -
  have "\<bar>c - t\<bar> < 18446744073709551616"
    using cell_ok_bounds [OF assms(1)] cell_ok_bounds [OF assms(2)] by linarith
  then have "\<bar>c - t\<bar> < 2 ^ 64" by simp
  then show ?thesis by (rule off_inj)
qed

lemma cell_ok_inj4:
  assumes "cell_ok c" "cell_ok t"
  shows "(off B c = off B (t + 4)) = (c = t + 4)"
proof -
  have "\<bar>c - (t + 4)\<bar> < 18446744073709551616"
    using cell_ok_bounds [OF assms(1)] cell_ok_bounds [OF assms(2)] by linarith
  then have "\<bar>c - (t + 4)\<bar> < 2 ^ 64" by simp
  then show ?thesis by (rule off_inj)
qed

lemma cell_ok_plus4: "cell_ok c \<Longrightarrow> c + 4 < 2 ^ 32 \<Longrightarrow> cell_ok (c + 4)"
  by (simp add: cell_ok_def)

lemma GET_PUT_off:
  assumes "al8 B" "cell_ok c" "cell_ok t"
  shows "GET (PUT m (off B t) v) (off B c) = (if c = t then ucast v else GET m (off B c))"
  using assms by (simp add: GET_PUT cell_ok_al4 cell_ok_inj)

lemma GET_store_off:
  assumes "al8 B" "cell_ok c" "cell_ok t" "8 dvd t"
  shows "GET (store_ptr m (off B t) v) (off B c) =
           (if c = t then ucast v else if c = t + 4 then ucast (drop_bit 32 v)
            else GET m (off B c))"
proof -
  have "GET (store_ptr m (off B t) v) (off B c) =
          (if off B c = off B t then ucast v
           else if off B c = off B t + 4 then ucast (drop_bit 32 v) else GET m (off B c))"
    using assms by (intro GET_store) (simp_all add: cell_ok_al4 cell_ok_al8)
  then show ?thesis
    using assms by (simp add: cell_ok_inj cell_ok_inj4)
qed

lemma load_PUT_off:
  assumes "al8 B" "cell_ok c" "8 dvd c" "cell_ok t" "t \<noteq> c" "t \<noteq> c + 4"
  shows "load_ptr (PUT m (off B t) v) (off B c) = load_ptr m (off B c)"
proof -
  have i: "off B t \<noteq> off B (c + 4)"
    using assms(2,4,6) by (simp add: cell_ok_inj4)
  show ?thesis
    using assms i by (intro load_PUT_other) (simp_all add: cell_ok_al4 cell_ok_al8 cell_ok_inj)
qed

lemma load_store_off:
  assumes "al8 B" "cell_ok c" "8 dvd c" "cell_ok t" "8 dvd t"
  shows "load_ptr (store_ptr m (off B t) v) (off B c) = (if c = t then v else load_ptr m (off B c))"
  using assms by (simp add: load_store cell_ok_al8 cell_ok_inj)

section \<open>What the descriptions read\<close>

lemma blocks_ok_cong:
  assumes "\<forall>c\<in>tcells x bs. GET m' (off B c) = GET m (off B c)"
  shows "blocks_ok m' B x bs = blocks_ok m B x bs"
  using assms by (induction bs arbitrary: x) auto

lemma chain_cong:
  assumes "\<forall>c\<in>set (p # xs). load_ptr m' (off B c) = load_ptr m (off B c)"
  shows "chain m' B p xs = chain m B p xs"
  using assms by (induction xs arbitrary: p) auto

lemma preds_cong:
  assumes "\<forall>c\<in>set xs. load_ptr m' (off B (c + 8)) = load_ptr m (off B (c + 8))"
  shows "preds m' B p xs = preds m B p xs"
  using assms by (induction xs arbitrary: p) auto

lemma chain_seg: "chain m B p xs = (seg m B p xs \<and> load_ptr m (off B (last (p # xs))) = 0)"
  by (induction xs arbitrary: p) auto

lemma seg_append: "seg m B p (xs @ ys) = (seg m B p xs \<and> seg m B (last (p # xs)) ys)"
  by (induction xs arbitrary: p) auto

lemma preds_append: "preds m B p (xs @ ys) = (preds m B p xs \<and> preds m B (last (p # xs)) ys)"
  by (induction xs arbitrary: p) auto

lemma seg_cong:
  assumes "\<forall>c\<in>set (butlast (p # xs)). load_ptr m' (off B c) = load_ptr m (off B c)"
  shows "seg m' B p xs = seg m B p xs"
  using assms by (induction xs arbitrary: p) auto

section \<open>The geometry of the blocks\<close>

lemma sizes_ok_blocks: "blocks_ok m B x bs \<Longrightarrow> sizes_ok bs"
  by (induction bs arbitrary: x) (auto simp add: sizes_ok_def)

lemma sizes_ok_simps:
  "sizes_ok []" "sizes_ok (b # bs) = (16 \<le> fst b \<and> 8 dvd fst b \<and> sizes_ok bs)"
  "sizes_ok (as @ bs) = (sizes_ok as \<and> sizes_ok bs)"
  by (auto simp add: sizes_ok_def)

lemma sizes_ok_sum: "sizes_ok bs \<Longrightarrow> 0 \<le> sum_list (map fst bs) \<and> 8 dvd sum_list (map fst bs)"
  by (induction bs) (auto simp add: sizes_ok_simps)

lemma layout_append:
  "layout x (as @ bs) = layout x as @ layout (x + sum_list (map fst as)) bs"
  by (induction as arbitrary: x) (auto simp add: add.assoc)

lemma layout_range:
  assumes "sizes_ok bs" "(y, n, a) \<in> set (layout x bs)"
  shows "x \<le> y \<and> y + n \<le> x + sum_list (map fst bs) \<and> 16 \<le> n \<and> 8 dvd n \<and> 8 dvd y - x"
  using assms
proof (induction bs arbitrary: x)
  case Nil
  then show ?case by simp
next
  case (Cons b bs)
  have s: "sizes_ok bs" "16 \<le> fst b" "8 dvd fst b" using Cons.prems(1) by (simp_all add: sizes_ok_simps)
  show ?case
  proof (cases "(y, n, a) = (x, fst b, snd b)")
    case True
    then show ?thesis using s sizes_ok_sum [OF s(1)] by auto
  next
    case False
    then have "(y, n, a) \<in> set (layout (x + fst b) bs)" using Cons.prems(2) by (cases b) auto
    from Cons.IH [OF s(1) this] s show ?thesis by (auto simp add: algebra_simps)
  qed
qed

text \<open>Two blocks of a heap are the same block or lie apart.\<close>

lemma layout_disjoint:
  assumes "sizes_ok bs" "(y, n, a) \<in> set (layout x bs)" "(y', n', a') \<in> set (layout x bs)"
  shows "(y, n, a) = (y', n', a') \<or> y + n \<le> y' \<or> y' + n' \<le> y"
  using assms
proof (induction bs arbitrary: x)
  case Nil
  then show ?case by simp
next
  case (Cons b bs)
  have s: "sizes_ok bs" "16 \<le> fst b" using Cons.prems(1) by (simp_all add: sizes_ok_simps)
  consider "(y, n, a) = (x, fst b, snd b)" "(y', n', a') = (x, fst b, snd b)"
    | "(y, n, a) = (x, fst b, snd b)" "(y', n', a') \<in> set (layout (x + fst b) bs)"
    | "(y, n, a) \<in> set (layout (x + fst b) bs)" "(y', n', a') = (x, fst b, snd b)"
    | "(y, n, a) \<in> set (layout (x + fst b) bs)" "(y', n', a') \<in> set (layout (x + fst b) bs)"
    using Cons.prems(2,3) by (cases b) auto
  then show ?case
  proof cases
    case 1
    then show ?thesis by simp
  next
    case 2
    then show ?thesis using layout_range [OF s(1) 2(2)] by auto
  next
    case 3
    then show ?thesis using layout_range [OF s(1) 3(1)] by auto
  next
    case 4
    then show ?thesis using Cons.IH [OF s(1) 4] by simp
  qed
qed

text \<open>No tag lies strictly inside a block, between its header and its footer.\<close>

lemma tcells_outside:
  assumes "sizes_ok bs" "(y, n, a) \<in> set (layout x bs)" "c \<in> tcells x bs"
  shows "c \<le> y - 4 \<or> y + n - 8 \<le> c"
  using assms
proof (induction bs arbitrary: x)
  case Nil
  then show ?case by simp
next
  case (Cons b bs)
  have s: "sizes_ok bs" "16 \<le> fst b" using Cons.prems(1) by (simp_all add: sizes_ok_simps)
  have r: "x + fst b - 4 \<le> c'" if "c' \<in> tcells (x + fst b) bs" for c'
    using that s(1)
  proof (induction bs arbitrary: x)
    case Nil
    then show ?case by simp
  next
    case (Cons d ds)
    have "sizes_ok ds" "16 \<le> fst d" using Cons.prems(2) by (simp_all add: sizes_ok_simps)
    with Cons.IH [of "x + fst d"] Cons.prems(1) show ?case by (auto simp add: algebra_simps)
  qed
  show ?case
  proof (cases "(y, n, a) = (x, fst b, snd b)")
    case True
    then show ?thesis using Cons.prems(3) r [of c] by auto
  next
    case False
    then have m: "(y, n, a) \<in> set (layout (x + fst b) bs)" using Cons.prems(2) by (cases b) auto
    show ?thesis
    proof (cases "c \<in> tcells (x + fst b) bs")
      case True
      then show ?thesis using Cons.IH [OF s(1) m] by simp
    next
      case False
      then have "c = x - 4 \<or> c = x + fst b - 8" using Cons.prems(3) by auto
      then show ?thesis using layout_range [OF s(1) m] s(2) by auto
    qed
  qed
qed

lemma tcells_range:
  assumes "sizes_ok bs" "c \<in> tcells x bs"
  shows "x - 4 \<le> c \<and> c \<le> x + sum_list (map fst bs) - 4 \<and> 4 dvd c - x"
  using assms
proof (induction bs arbitrary: x)
  case Nil
  then show ?case by simp
next
  case (Cons b bs)
  have s: "sizes_ok bs" "16 \<le> fst b" "8 dvd fst b" using Cons.prems(1) by (simp_all add: sizes_ok_simps)
  have d: "4 dvd fst b" using s(3) by presburger
  show ?case
  proof (cases "c \<in> tcells (x + fst b) bs")
    case True
    from Cons.IH [OF s(1) this] s(2) d show ?thesis
      by (auto simp add: algebra_simps dvd_diff_left_iff dvd_add_right_iff)
  next
    case False
    then have "c = x - 4 \<or> c = x + fst b - 8" using Cons.prems(2) by auto
    then show ?thesis using s sizes_ok_sum [OF s(1)] d by auto
  qed
qed

section \<open>The list heads\<close>

lemma set_list_head_fields:
  "mem (set_list_head s w p) = mem s" "heap_listp (set_list_head s w p) = heap_listp s"
  "mem_brk (set_list_head s w p) = mem_brk s" "mem_max_addr (set_list_head s w p) = mem_max_addr s"
  by (simp_all add: set_list_head_def)

lemma head_of_set_list_head:
  assumes "j < 11"
  shows "head_of (set_list_head s w p) j = (if j = class_of (uint w) then p else head_of s j)"
proof -
  have c: "j = 0 \<or> j = 1 \<or> j = 2 \<or> j = 3 \<or> j = 4 \<or> j = 5 \<or> j = 6 \<or> j = 7 \<or> j = 8 \<or> j = 9 \<or> j = 10"
    using assms by arith
  show ?thesis
    using c by (elim disjE) (simp_all add: set_list_head_def head_of_def class_of_def word_le_def)
qed

lemma head_of_mem_update [simp]: "head_of (s\<lparr>mem := m\<rparr>) j = head_of s j"
  by (simp add: head_of_def)

lemma find_list_head_mem_update [simp]: "find_list_head (s\<lparr>mem := m\<rparr>) w = find_list_head s w"
  by (simp add: find_list_head_def)

lemma class_of_word_of_int:
  assumes "0 \<le> n" "n < 2 ^ 32"
  shows "class_of (uint (word_of_int n :: 64 word)) = class_of n"
  using assms by (simp add: uint_word_of_int_64)

lemma word_of_int_gt16:
  assumes "0 \<le> n" "n < 2 ^ 32"
  shows "((word_of_int n :: 64 word) > 16) = (class_of n \<noteq> 0)"
proof -
  have "uint (word_of_int n :: 64 word) = n" using assms by (simp add: uint_word_of_int_64)
  then show ?thesis by (simp add: word_less_def class_of_def)
qed

section \<open>The nodes of the lists\<close>

lemma arena_ok_tags: "tags_ok s bs \<Longrightarrow> arena_ok (heap_listp s) bs"
  by (auto simp add: tags_ok_def arena_ok_def intro: sizes_ok_blocks)

lemma nodes_in_lists: "lists_ok s bs fl \<Longrightarrow> nodes_in fl bs"
  unfolding nodes_in_def
proof (intro allI impI ballI)
  fix k y assume a: "lists_ok s bs fl" "k < 11" "y \<in> set (fl ! k)"
  from lists_okD(3) [OF a(1,2)] a(3) have "y \<in> set (free_offs k bs)" by simp
  from free_offs_mem [OF this] show "\<exists>n a. (y, n, a) \<in> set (layout 96 bs) \<and> class_of n = k"
    by blast
qed

lemma links_ok_lists: "lists_ok s bs fl \<Longrightarrow> links_ok s fl"
  by (simp add: links_ok_def lists_ok_def list_all_iff)

lemma node_geo:
  assumes "arena_ok B bs" "nodes_in fl bs" "k < 11" "y \<in> set (fl ! k)"
  shows "8 dvd y \<and> 96 \<le> y \<and> y + 16 \<le> heap_end bs \<and> (k \<noteq> 0 \<longrightarrow> y + 24 \<le> heap_end bs) \<and>
         off B y \<noteq> 0 \<and> cell_ok y \<and> cell_ok (y + 4) \<and> cell_ok (y + 8) \<and> cell_ok (y + 12) \<and>
         cell_ok (y - 4)"
proof -
  from assms(2,3,4) obtain n a where n: "(y, n, a) \<in> set (layout 96 bs)" "class_of n = k"
    unfolding nodes_in_def by blast
  have s: "sizes_ok bs" and e: "heap_end bs < 4294967296" and u: "8 \<le> uint B"
    "uint B + heap_end bs < 2 ^ 64"
    using assms(1) by (simp_all add: arena_ok_def)
  from layout_range [OF s n(1)]
  have r: "96 \<le> y" "y + n \<le> heap_end bs" "16 \<le> n" "8 dvd n" "8 dvd y - 96"
    by (simp_all add: heap_end_def)
  have d: "8 dvd y" using r(5) by presburger
  have d4: "4 dvd y" using d by presburger
  have k24: "24 \<le> n" if "k \<noteq> 0"
    using that n(2) r(3,4) by (auto simp add: class_of_def split: if_splits)
  have nz: "off B y \<noteq> 0" using r u by (intro off_nonzero) simp_all
  have c: "cell_ok y" "cell_ok (y + 4)" "cell_ok (y + 8)" "cell_ok (y + 12)" "cell_ok (y - 4)"
    using r e d4 by (simp_all add: cell_ok_def)
  show ?thesis using d r k24 nz c by auto
qed

lemma node_sep:
  assumes "arena_ok B bs" "nodes_in fl bs" "i < 11" "j < 11" "x \<in> set (fl ! i)" "y \<in> set (fl ! j)"
  shows "(x = y \<and> i = j) \<or> x + 16 \<le> y \<or> y + 16 \<le> x"
proof -
  from assms(2,3,5) obtain n a where n: "(x, n, a) \<in> set (layout 96 bs)" "class_of n = i"
    unfolding nodes_in_def by blast
  from assms(2,4,6) obtain n' a' where n': "(y, n', a') \<in> set (layout 96 bs)" "class_of n' = j"
    unfolding nodes_in_def by blast
  have s: "sizes_ok bs" using assms(1) by (simp add: arena_ok_def)
  from layout_disjoint [OF s n(1) n'(1)] layout_range [OF s n(1)] layout_range [OF s n'(1)]
  show ?thesis using n(2) n'(2) by auto
qed

lemma anchor_cell_ok: "k < 11 \<Longrightarrow> cell_ok (8 * int k) \<and> cell_ok (8 * int k + 4) \<and> 8 dvd (8 * int k)"
  by (simp add: cell_ok_def)

text \<open>A list of one class keeps its shape when the links at its offsets keep their values.\<close>

lemma list_ok_frame:
  assumes "list_ok s k xs" "heap_listp s' = heap_listp s" "head_of s' k = head_of s k"
    "\<forall>c\<in>cells8 k xs. load_ptr (mem s') (off (heap_listp s) c) = load_ptr (mem s) (off (heap_listp s) c)"
  shows "list_ok s' k xs"
proof -
  have c: "chain (mem s') (heap_listp s) (8 * int k) xs = chain (mem s) (heap_listp s) (8 * int k) xs"
    using assms(4) by (intro chain_cong) (auto simp add: cells8_def)
  have p: "preds (mem s') (heap_listp s) (8 * int k) xs = preds (mem s) (heap_listp s) (8 * int k) xs"
    if "k \<noteq> 0"
    using assms(4) that by (intro preds_cong) (auto simp add: cells8_def)
  show ?thesis using assms(1,2,3) c p by (auto simp add: list_ok_def)
qed

section \<open>Unlinking and appending a node\<close>

lemma chain_bypass:
  assumes "al8 B" "chain m B a (L1 @ y # R)" "distinct (a # L1 @ R)"
    "\<forall>c\<in>set (a # L1 @ R). cell_ok c \<and> 8 dvd c"
  shows "chain (store_ptr m (off B (last (a # L1))) (load_ptr m (off B y))) B a (L1 @ R)"
  using assms(2,3,4)
proof (induction L1 arbitrary: a)
  case Nil
  have ca: "cell_ok a" "8 dvd a" using Nil.prems(3) by simp_all
  have y: "load_ptr m (off B a) = off B y" "chain m B y R" using Nil.prems(1) by simp_all
  show ?case
  proof (cases R)
    case Nil
    then show ?thesis using y by (simp add: load_store_same)
  next
    case (Cons r R')
    have "chain (store_ptr m (off B a) (load_ptr m (off B y))) B r R' = chain m B r R'"
    proof (intro chain_cong ballI)
      fix c assume c: "c \<in> set (r # R')"
      then have "c \<noteq> a" "cell_ok c" "8 dvd c" using Nil.prems(2,3) Cons by auto
      then show "load_ptr (store_ptr m (off B a) (load_ptr m (off B y))) (off B c) =
                 load_ptr m (off B c)"
        using ca assms(1) by (simp add: load_store_off)
    qed
    then show ?thesis using y Cons by (simp add: load_store_same)
  qed
next
  case (Cons x L1)
  have ca: "cell_ok a" "8 dvd a" using Cons.prems(3) by simp_all
  have l: "last (x # L1) \<in> set (x # L1)" by (rule last_in_set) simp
  then have ne: "a \<noteq> last (x # L1)" using Cons.prems(2) by auto
  have cl: "cell_ok (last (x # L1))" "8 dvd last (x # L1)" using l Cons.prems(3) by auto
  have "chain (store_ptr m (off B (last (x # L1))) (load_ptr m (off B y))) B x (L1 @ R)"
    using Cons.prems by (intro Cons.IH) simp_all
  moreover have "load_ptr (store_ptr m (off B (last (x # L1))) (load_ptr m (off B y))) (off B a)
      = off B x"
    using Cons.prems(1) ne ca cl assms(1) by (simp add: load_store_off)
  ultimately show ?case by simp
qed

lemma chain_next_of:
  "chain m B a (L1 @ y # R) \<Longrightarrow> load_ptr m (off B y) = (if R = [] then 0 else off B (hd R))"
  by (induction L1 arbitrary: a) (auto simp add: neq_Nil_conv)

lemma chain_prev_next:
  "chain m B a (L1 @ y # R) \<Longrightarrow> load_ptr m (off B (last (a # L1))) = off B y"
  by (induction L1 arbitrary: a) auto

lemma preds_pred_of:
  "preds m B a (L1 @ y # R) \<Longrightarrow> load_ptr m (off B (y + 8)) = off B (last (a # L1))"
  by (induction L1 arbitrary: a) auto

lemma chain_append_node:
  assumes "al8 B" "chain m B a L" "distinct (a # L @ [y])"
    "\<forall>c\<in>set (a # L @ [y]). cell_ok c \<and> 8 dvd c"
    "\<forall>c\<in>set (a # L @ [y]). load_ptr m' (off B c) =
       (if c = last (a # L) then off B y else if c = y then 0 else load_ptr m (off B c))"
  shows "chain m' B a (L @ [y])"
  using assms(2,3,4,5)
proof (induction L arbitrary: a)
  case Nil
  then show ?case by auto
next
  case (Cons x L)
  have l: "last (x # L) \<in> set (x # L)" by (rule last_in_set) simp
  then have ne: "a \<noteq> last (x # L)" "a \<noteq> y" using Cons.prems(2) by auto
  have "load_ptr m' (off B a) = off B x" using Cons.prems(1,4) ne by simp
  moreover have "chain m' B x (L @ [y])"
    using Cons.prems by (intro Cons.IH) auto
  ultimately show ?case by simp
qed

lemma find_pred_found:
  assumes "seg m B a L1" "load_ptr m (off B (last (a # L1))) = off B y"
    "\<forall>x\<in>set L1. off B x \<noteq> off B y"
  shows "find_pred m (off B a) (off B y) = Some (off B (last (a # L1)))"
  using assms
proof (induction L1 arbitrary: a)
  case Nil
  then show ?case by (subst find_pred.simps) (simp add: GET_NEXT_PTR_def)
next
  case (Cons x L1)
  have "find_pred m (off B a) (off B y) = find_pred m (off B x) (off B y)"
    using Cons.prems by (subst find_pred.simps) (simp add: GET_NEXT_PTR_def)
  then show ?case using Cons by simp
qed

lemma chain_seg_prefix: "chain m B a (L1 @ y # R) \<Longrightarrow> seg m B a L1"
  by (simp add: chain_seg seg_append)

section \<open>Removing a node from its list\<close>

lemma find_list_head_set_same: "find_list_head (set_list_head s w p) w = p"
  by (simp add: find_list_head_class head_of_set_list_head class_of_less)

lemma block_size_set_list_head [simp]: "block_size (set_list_head s w p) bp = block_size s bp"
  by (simp add: block_size_def set_list_head_fields)

lemma remove_dl_tail:
  assumes "block_size s bp > 16" "GET_NEXT_PTR (mem s) bp = 0"
  shows "remove_frome_free_list s bp =
           Some ((set_list_head s (block_size s bp) (GET_PRED_PTR (mem s) bp))
                   \<lparr>mem := store_ptr (mem s) (GET_PRED_PTR (mem s) bp) 0\<rparr>)"
  using assms
  by (simp add: remove_frome_free_list_def Let_def find_list_head_set_same set_list_head_fields
      PUT_NEXT_PTR_def)

lemma remove_dl_mid:
  assumes "block_size s bp > 16" "GET_NEXT_PTR (mem s) bp \<noteq> 0"
  shows "remove_frome_free_list s bp =
           Some (s\<lparr>mem :=
             store_ptr (store_ptr (mem s) (GET_PRED_PTR (mem s) bp) (GET_NEXT_PTR (mem s) bp))
               (GET_NEXT_PTR (store_ptr (mem s) (GET_PRED_PTR (mem s) bp) (GET_NEXT_PTR (mem s) bp)) bp
                  + DSIZE)
               (GET_PRED_PTR (store_ptr (mem s) (GET_PRED_PTR (mem s) bp) (GET_NEXT_PTR (mem s) bp)) bp)\<rparr>)"
  using assms
  by (simp add: remove_frome_free_list_def Let_def PUT_NEXT_PTR_def PUT_PRED_PTR_def)

lemma remove_sl_tail:
  assumes "\<not> block_size s bp > 16" "GET_NEXT_PTR (mem s) bp = 0"
    "find_pred (mem s) (find_list_tail s (block_size s bp)) bp = Some q"
  shows "remove_frome_free_list s bp =
           Some ((set_list_head s (block_size s bp) q)\<lparr>mem := store_ptr (mem s) q 0\<rparr>)"
  using assms
  by (simp add: remove_frome_free_list_def Let_def find_list_head_set_same set_list_head_fields
      PUT_NEXT_PTR_def)

lemma remove_sl_mid:
  assumes "\<not> block_size s bp > 16" "GET_NEXT_PTR (mem s) bp \<noteq> 0"
    "find_pred (mem s) (find_list_tail s (block_size s bp)) bp = Some q"
  shows "remove_frome_free_list s bp =
           Some (s\<lparr>mem := store_ptr (mem s) q (GET_NEXT_PTR (mem s) bp)\<rparr>)"
  using assms
  by (simp add: remove_frome_free_list_def Let_def PUT_NEXT_PTR_def)

text \<open>
  The state after the removal of the node \<open>y\<close> between \<open>pr\<close> and the rest \<open>R\<close> of its list of
  class \<open>k\<close>, written out.
\<close>

lemma remove_result:
  assumes A: "arena_ok (heap_listp s) bs" and N: "nodes_in fl bs" and L: "links_ok s fl"
    and k: "k < 11" and f: "fl ! k = L1 @ y # R" 
    and sz: "block_size s (off (heap_listp s) y) = word_of_int n" "0 \<le> n" "n < 2 ^ 32"
      "class_of n = k"
    and pr: "pr = last (8 * int k # L1)"
  shows "remove_frome_free_list s (off (heap_listp s) y) =
           Some (if R = []
                 then (set_list_head s (word_of_int n) (off (heap_listp s) pr))
                        \<lparr>mem := store_ptr (mem s) (off (heap_listp s) pr) 0\<rparr>
                 else if k = 0
                 then s\<lparr>mem := store_ptr (mem s) (off (heap_listp s) pr)
                                  (off (heap_listp s) (hd R))\<rparr>
                 else s\<lparr>mem := store_ptr
                          (store_ptr (mem s) (off (heap_listp s) pr)
                             (off (heap_listp s) (hd R)))
                          (off (heap_listp s) (hd R + 8))
                          (off (heap_listp s) pr)\<rparr>)"
proof -
  let ?B = "heap_listp s" and ?m = "mem s"
  have B: "al8 ?B" using A by (simp add: arena_ok_def)
  have "list_ok s k (fl ! k) \<and> distinct (fl ! k)" using L k by (simp add: links_ok_def)
  then have lk: "list_ok s k (L1 @ y # R)" "distinct (L1 @ y # R)"
    unfolding f by simp_all
  have ch: "chain ?m ?B (8 * int k) (L1 @ y # R)" using lk(1) by (simp add: list_ok_def)
  have geo: "8 dvd x \<and> 96 \<le> x \<and> off ?B x \<noteq> 0 \<and> cell_ok x \<and> cell_ok (x + 8)"
    if "x \<in> set (fl ! k)" for x
    using node_geo [OF A N k that] by simp
  have gy: "8 dvd y" "96 \<le> y" "cell_ok y" "cell_ok (y + 8)" using geo [of y] f by simp_all
  have pr_in: "pr = 8 * int k \<or> pr \<in> set L1"
    unfolding pr by (cases L1 rule: rev_cases) simp_all
  have gpr: "8 dvd pr" "cell_ok pr" "pr \<noteq> y" "pr \<noteq> y + 8"
  proof -
    show "8 dvd pr" using pr_in geo f by auto
    show "cell_ok pr" using pr_in geo f anchor_cell_ok [OF k] by auto
    show "pr \<noteq> y" using pr_in gy(2) lk(2) k by auto
    show "pr \<noteq> y + 8"
    proof
      assume e: "pr = y + 8"
      then have "pr \<in> set L1" using pr_in gy(2) k by auto
      then have "pr \<in> set (fl ! k)" using f by simp
      from node_sep [OF A N k k this, of y] f e show False by auto
    qed
  qed
  have nx: "load_ptr ?m (off ?B y) = (if R = [] then 0 else off ?B (hd R))"
    using chain_next_of [OF ch] .
  have hz: "off ?B (hd R) \<noteq> 0" if "R \<noteq> []"
    using that geo [of "hd R"] f by (cases R) auto
  have w16: "(block_size s (off ?B y) > 16) = (k \<noteq> 0)"
    using word_of_int_gt16 [OF sz(2,3)] sz(1,4) by simp
  have cw: "class_of (uint (word_of_int n :: 64 word)) = k"
    using class_of_word_of_int [OF sz(2,3)] sz(4) by simp
  show ?thesis
  proof (cases "k = 0")
    case True
    have fp: "find_pred ?m (find_list_tail s (block_size s (off ?B y))) (off ?B y) = Some (off ?B pr)"
      unfolding find_list_tail_class sz(1) cw pr
    proof (rule find_pred_found)
      show "seg ?m ?B (8 * int k) L1" using chain_seg_prefix [OF ch] .
      show "load_ptr ?m (off ?B (last (8 * int k # L1))) = off ?B y"
        using chain_prev_next [OF ch] .
      show "\<forall>x\<in>set L1. off ?B x \<noteq> off ?B y"
      proof
        fix x assume x: "x \<in> set L1"
        then have "x \<noteq> y" using lk(2) by auto
        moreover have "cell_ok x" using geo [of x] x f by simp
        ultimately show "off ?B x \<noteq> off ?B y" using gy(3) by (simp add: cell_ok_inj)
      qed
    qed
    show ?thesis
    proof (cases "R = []")
      case True
      have "GET_NEXT_PTR ?m (off ?B y) = 0" using nx True by (simp add: GET_NEXT_PTR_def)
      from remove_sl_tail [OF _ this fp] w16 \<open>k = 0\<close> True sz(1) show ?thesis by simp
    next
      case False
      have "GET_NEXT_PTR ?m (off ?B y) \<noteq> 0" using nx False hz by (simp add: GET_NEXT_PTR_def)
      from remove_sl_mid [OF _ this fp] w16 \<open>k = 0\<close> False nx show ?thesis
        by (simp add: GET_NEXT_PTR_def)
    qed
  next
    case False
    have pd: "load_ptr ?m (off ?B (y + 8)) = off ?B pr"
      unfolding pr using lk(1) False preds_pred_of by (auto simp add: list_ok_def)
    have gp: "GET_PRED_PTR ?m (off ?B y) = off ?B pr"
      using pd by (simp add: GET_PRED_PTR_def DSIZE_def)
    show ?thesis
    proof (cases "R = []")
      case True
      have "GET_NEXT_PTR ?m (off ?B y) = 0" using nx True by (simp add: GET_NEXT_PTR_def)
      from remove_dl_tail [OF _ this] w16 False True sz(1) gp show ?thesis by simp
    next
      case R: False
      have n0: "GET_NEXT_PTR ?m (off ?B y) \<noteq> 0" using nx R hz by (simp add: GET_NEXT_PTR_def)
      have gn: "GET_NEXT_PTR ?m (off ?B y) = off ?B (hd R)"
        using nx R by (simp add: GET_NEXT_PTR_def)
      have l1: "load_ptr (store_ptr ?m (off ?B pr) v) (off ?B y) = load_ptr ?m (off ?B y)" for v
        using B gy gpr by (simp add: load_store_off)
      have l2: "load_ptr (store_ptr ?m (off ?B pr) v) (off ?B (y + 8)) = load_ptr ?m (off ?B (y + 8))" for v
        using B gy gpr by (simp add: load_store_off)
      from remove_dl_mid [OF _ n0] w16 False R show ?thesis
        by (simp add: gp gn GET_NEXT_PTR_def GET_PRED_PTR_def DSIZE_def l1 l2 nx pd)
    qed
  qed
qed

lemma last_anchor_cases: "last (a # L1) = a \<or> last (a # L1) \<in> set L1"
  by (cases L1 rule: rev_cases) simp_all

lemma preds_tail: "preds m B a (L1 @ y # R) \<Longrightarrow> preds m B a L1 \<and> (case R of [] \<Rightarrow> True | z # R' \<Rightarrow> preds m B z R')"
  by (induction L1 arbitrary: a) (auto split: list.splits)

lemma remove_spec:
  assumes A: "arena_ok (heap_listp s) bs" and N: "nodes_in fl bs" and L: "links_ok s fl"
    and k: "k < 11" and y: "y \<in> set (fl ! k)"
    and sz: "block_size s (off (heap_listp s) y) = word_of_int n" "0 \<le> n" "n < 2 ^ 32"
      "class_of n = k"
  shows "\<exists>s'. remove_frome_free_list s (off (heap_listp s) y) = Some s' \<and>
              links_ok s' (fl[k := remove1 y (fl ! k)]) \<and>
              heap_listp s' = heap_listp s \<and> mem_brk s' = mem_brk s \<and>
              mem_max_addr s' = mem_max_addr s \<and>
              (\<forall>c. cell_ok c \<and> c \<notin> all_lcells fl \<longrightarrow>
                   GET (mem s') (off (heap_listp s) c) = GET (mem s) (off (heap_listp s) c))"
proof -
  let ?B = "heap_listp s" and ?m = "mem s" and ?a = "8 * int k"
  obtain L1 R where f: "fl ! k = L1 @ y # R" and yL1: "y \<notin> set L1"
    using split_list_first [OF y] by blast
  define pr where "pr = last (?a # L1)"
  define v where "v = load_ptr ?m (off ?B y)"
  define z where "z = hd R"
  define ex where "ex = (R \<noteq> [] \<and> k \<noteq> 0)"
  define M where "M = (if ex then store_ptr (store_ptr ?m (off ?B pr) v) (off ?B (z + 8)) (off ?B pr)
                       else store_ptr ?m (off ?B pr) v)"
  define s' where "s' = (if R = [] then (set_list_head s (word_of_int n) (off ?B pr))\<lparr>mem := M\<rparr>
                         else s\<lparr>mem := M\<rparr>)"
  have B: "al8 ?B" using A by (simp add: arena_ok_def)
  have len: "length fl = 11" using L by (simp add: links_ok_def)
  have "list_ok s k (fl ! k) \<and> distinct (fl ! k)" using L k by (simp add: links_ok_def)
  then have lk: "list_ok s k (L1 @ y # R)" "distinct (L1 @ y # R)" unfolding f by simp_all
  have ch: "chain ?m ?B ?a (L1 @ y # R)" using lk(1) by (simp add: list_ok_def)
  have vv: "v = (if R = [] then 0 else off ?B z)"
    unfolding v_def z_def using chain_next_of [OF ch] .
  have rem: "remove1 y (fl ! k) = L1 @ R" using f yL1 by (simp add: remove1_append)
  have pr_in: "pr = ?a \<or> pr \<in> set L1" unfolding pr_def by (rule last_anchor_cases)
  have zR: "z \<in> set R" if "R \<noteq> []" using that unfolding z_def by simp
  have geo: "8 dvd x \<and> 96 \<le> x \<and> cell_ok x \<and> cell_ok (x + 4) \<and> cell_ok (x + 8) \<and> cell_ok (x + 12)"
    if "x \<in> set (fl ! j)" "j < 11" for x j
    using node_geo [OF A N that(2,1)] by simp
  have sep: "(x = x' \<and> i = j) \<or> x + 16 \<le> x' \<or> x' + 16 \<le> x"
    if "x \<in> set (fl ! i)" "x' \<in> set (fl ! j)" "i < 11" "j < 11" for x x' i j
    using node_sep [OF A N that(3,4,1,2)] .
  have gpr: "8 dvd pr" "cell_ok pr" "cell_ok (pr + 4)"
    using pr_in geo [of pr k] f k anchor_cell_ok [OF k] by auto
  have gz: "8 dvd z" "96 \<le> z" "cell_ok z" "cell_ok (z + 8)" "cell_ok (z + 12)" if "R \<noteq> []"
    using geo [of z k] zR [OF that] f k by simp_all
  have pr_z8: "pr \<noteq> z + 8" if "R \<noteq> []"
  proof
    assume e: "pr = z + 8"
    have "z \<in> set (fl ! k)" using zR [OF that] f by simp
    moreover have "pr \<in> set (fl ! k)" using pr_in e gz(2) [OF that] k f by auto
    ultimately show False using sep [of pr k z k] k e by auto
  qed
  text \<open>the state after the removal\<close>
  have res: "remove_frome_free_list s (off ?B y) = Some s'"
  proof -
    have "M = (if R = [] then store_ptr ?m (off ?B pr) 0
               else if k = 0 then store_ptr ?m (off ?B pr) (off ?B (hd R))
               else store_ptr (store_ptr ?m (off ?B pr) (off ?B (hd R))) (off ?B (hd R + 8)) (off ?B pr))"
      by (simp add: M_def ex_def vv z_def)
    then show ?thesis
      unfolding s'_def using remove_result [OF A N L k f sz pr_def] by (simp split: if_splits)
  qed
  text \<open>what the links hold afterwards\<close>
  have F1: "load_ptr M (off ?B c) =
      (if ex \<and> c = z + 8 then off ?B pr else if c = pr then v else load_ptr ?m (off ?B c))"
    if "cell_ok c" "8 dvd c" for c
  proof (cases ex)
    case True
    then have R: "R \<noteq> []" by (simp add: ex_def)
    show ?thesis
      using that B gpr gz [OF R] pr_z8 [OF R] True by (simp add: M_def load_store_off)
  next
    case False
    then show ?thesis using that B gpr by (simp add: M_def load_store_off)
  qed
  have F2: "GET M (off ?B c) = GET ?m (off ?B c)"
    if "cell_ok c" "c \<noteq> pr" "c \<noteq> pr + 4" "ex \<longrightarrow> c \<noteq> z + 8 \<and> c \<noteq> z + 12" for c
  proof (cases ex)
    case True
    then have R: "R \<noteq> []" by (simp add: ex_def)
    show ?thesis
      using that B gpr gz [OF R] True by (simp add: M_def GET_store_off)
  next
    case False
    then show ?thesis using that B gpr by (simp add: M_def GET_store_off)
  qed
  have fields: "heap_listp s' = ?B" "mem_brk s' = mem_brk s" "mem_max_addr s' = mem_max_addr s"
    "mem s' = M"
    by (simp_all add: s'_def set_list_head_fields)
  have heads: "head_of s' j = (if R = [] \<and> j = k then off ?B pr else head_of s j)" if "j < 11" for j
    using that class_of_word_of_int [OF sz(2,3)] sz(4)
    by (simp add: s'_def head_of_set_list_head)
  text \<open>the other lists\<close>
  have other: "list_ok s' j (fl ! j)" if j: "j < 11" "j \<noteq> k" for j
  proof (rule list_ok_frame)
    show "list_ok s j (fl ! j)" using L j by (simp add: links_ok_def)
    show "heap_listp s' = ?B" by (rule fields)
    show "head_of s' j = head_of s j" using heads j by simp
    show "\<forall>c\<in>cells8 j (fl ! j). load_ptr (mem s') (off ?B c) = load_ptr ?m (off ?B c)"
    proof
      fix c assume c: "c \<in> cells8 j (fl ! j)"
      then consider "c = 8 * int j" | "c \<in> set (fl ! j)"
        | x where "x \<in> set (fl ! j)" "c = x + 8"
        by (auto simp add: cells8_def split: if_splits)
      then have "cell_ok c \<and> 8 dvd c \<and> c \<noteq> pr \<and> (ex \<longrightarrow> c \<noteq> z + 8)"
      proof cases
        case 1
        then show ?thesis
          using anchor_cell_ok [OF j(1)] pr_in j geo [of pr k] geo [of z k] zR f k
          by (auto simp add: ex_def)
      next
        case 2
        have "c \<noteq> pr"
        proof
          assume "c = pr"
          then have "pr \<in> set (fl ! k)" using pr_in geo [OF 2 j(1)] k f by auto
          from sep [OF this 2 k j(1)] \<open>c = pr\<close> j show False by simp
        qed
        moreover have "c \<noteq> z + 8" if "ex"
        proof
          assume e: "c = z + 8"
          have "z \<in> set (fl ! k)" using zR that f by (simp add: ex_def)
          from sep [OF this 2 k j(1)] e show False by simp
        qed
        ultimately show ?thesis using geo [OF 2 j(1)] by simp
      next
        case 3
        have "c \<noteq> pr"
        proof
          assume e: "c = pr"
          then have "pr \<in> set (fl ! k)" using pr_in geo [OF 3(1) j(1)] 3(2) k f by auto
          from sep [OF this 3(1) k j(1)] e 3(2) j show False by simp
        qed
        moreover have "c \<noteq> z + 8" if "ex"
        proof
          assume e: "c = z + 8"
          have "z \<in> set (fl ! k)" using zR that f by (simp add: ex_def)
          from sep [OF this 3(1) k j(1)] e 3(2) j show False by simp
        qed
        ultimately show ?thesis using geo [OF 3(1) j(1)] 3(2) by auto
      qed
      then show "load_ptr (mem s') (off ?B c) = load_ptr ?m (off ?B c)"
        using F1 [of c] by (auto simp add: fields)
    qed
  qed
  text \<open>the list of the node\<close>
  have dist: "distinct (?a # L1 @ R)"
  proof -
    have "?a \<notin> set (L1 @ R)"
    proof
      assume "?a \<in> set (L1 @ R)"
      then have "?a \<in> set (fl ! k)" using f by auto
      from geo [OF this k] k show False by simp
    qed
    then show ?thesis using lk(2) by simp
  qed
  have cells: "\<forall>c\<in>set (?a # L1 @ R). cell_ok c \<and> 8 dvd c"
    using geo [of _ k] f k anchor_cell_ok [OF k] by auto
  have c1: "chain (store_ptr ?m (off ?B pr) v) ?B ?a (L1 @ R)"
    unfolding pr_def v_def using chain_bypass [OF B ch dist cells] .
  have cM: "chain M ?B ?a (L1 @ R)"
  proof (cases ex)
    case False
    then show ?thesis using c1 by (simp add: M_def)
  next
    case True
    then have R: "R \<noteq> []" by (simp add: ex_def)
    have "chain M ?B ?a (L1 @ R) = chain (store_ptr ?m (off ?B pr) v) ?B ?a (L1 @ R)"
    proof (intro chain_cong ballI)
      fix c assume c: "c \<in> set (?a # L1 @ R)"
      have "c \<noteq> z + 8"
      proof
        assume e: "c = z + 8"
        then have "c \<in> set (fl ! k)" using c gz(2) [OF R] k f by auto
        moreover have "z \<in> set (fl ! k)" using zR [OF R] f by simp
        ultimately show False using sep [of c k z k] k e by auto
      qed
      moreover have "cell_ok c" "8 dvd c" using cells c by blast+
      ultimately show "load_ptr M (off ?B c) = load_ptr (store_ptr ?m (off ?B pr) v) (off ?B c)"
        using True B gz [OF R] by (simp add: M_def load_store_off)
    qed
    then show ?thesis using c1 by simp
  qed
  have pM: "preds M ?B ?a (L1 @ R)" if k0: "k \<noteq> 0"
  proof -
    have p: "preds ?m ?B ?a (L1 @ y # R)" using lk(1) k0 by (simp add: list_ok_def)
    have keep: "load_ptr M (off ?B (x + 8)) = load_ptr ?m (off ?B (x + 8))"
      if x: "x \<in> set (L1 @ R)" "ex \<longrightarrow> x \<noteq> z" for x
    proof -
      have xk: "x \<in> set (fl ! k)" using x f by auto
      have "x + 8 \<noteq> pr"
      proof
        assume e: "x + 8 = pr"
        then have "pr \<in> set (fl ! k)" using pr_in geo [OF xk k] k f by auto
        from sep [OF this xk k k] e show False by simp
      qed
      moreover have "ex \<longrightarrow> x + 8 \<noteq> z + 8" using x by simp
      ultimately show ?thesis using F1 [of "x + 8"] geo [OF xk k] by auto
    qed
    have zL1: "z \<notin> set L1" if "R \<noteq> []" using zR [OF that] lk(2) by auto
    have p1: "preds M ?B ?a L1"
    proof -
      have "preds M ?B ?a L1 = preds ?m ?B ?a L1"
      proof (intro preds_cong ballI)
        fix c assume "c \<in> set L1"
        then show "load_ptr M (off ?B (c + 8)) = load_ptr ?m (off ?B (c + 8))"
          using keep [of c] zL1 by (auto simp add: ex_def)
      qed
      then show ?thesis using preds_tail [OF p] by simp
    qed
    have p2: "preds M ?B pr R"
    proof (cases R)
      case Nil
      then show ?thesis by simp
    next
      case (Cons z' R')
      have z': "z' = z" using Cons by (simp add: z_def)
      have e: "ex" using Cons k0 by (simp add: ex_def)
      have "preds M ?B z R' = preds ?m ?B z R'"
      proof (intro preds_cong ballI)
        fix c assume "c \<in> set R'"
        then show "load_ptr M (off ?B (c + 8)) = load_ptr ?m (off ?B (c + 8))"
          using keep [of c] lk(2) Cons z' by auto
      qed
      moreover have "preds ?m ?B z R'" using preds_tail [OF p] Cons z' by simp
      moreover have "load_ptr M (off ?B (z + 8)) = off ?B pr"
        using F1 [of "z + 8"] e gz Cons by simp
      ultimately show ?thesis using Cons z' by simp
    qed
    show ?thesis using p1 p2 by (simp add: preds_append pr_def)
  qed
  have hM: "head_of s' k = off ?B (last (?a # L1 @ R))"
  proof (cases "R = []")
    case True
    then show ?thesis using heads [OF k] by (simp add: pr_def)
  next
    case False
    have "head_of s k = off ?B (last (?a # L1 @ y # R))" using lk(1) by (simp add: list_ok_def)
    then show ?thesis using heads [OF k] False by simp
  qed
  have own: "list_ok s' k (L1 @ R)"
    using cM pM hM by (auto simp add: list_ok_def fields)
  have each: "list_ok s' j (fl[k := remove1 y (fl ! k)] ! j) \<and>
      distinct (fl[k := remove1 y (fl ! k)] ! j)" if j: "j < 11" for j
  proof (cases "j = k")
    case True
    then show ?thesis using own rem len k lk(2) by simp
  next
    case False
    then show ?thesis using other [OF j False] L j by (simp add: links_ok_def)
  qed
  have links: "links_ok s' (fl[k := remove1 y (fl ! k)])"
    using each len by (simp add: links_ok_def)
  have frame: "GET (mem s') (off ?B c) = GET ?m (off ?B c)"
    if c: "cell_ok c" "c \<notin> all_lcells fl" for c
  proof -
    have nk: "c \<notin> lcells k (fl ! k)" using c(2) k by (auto simp add: all_lcells_def)
    have "c \<noteq> pr \<and> c \<noteq> pr + 4" using nk pr_in f by (auto simp add: lcells_def)
    moreover have "c \<noteq> z + 8 \<and> c \<noteq> z + 12" if "ex"
      using nk zR that f by (auto simp add: lcells_def ex_def)
    ultimately show ?thesis using F2 [of c] c(1) by (simp add: fields)
  qed
  show ?thesis
    using res links fields frame by blast
qed

section \<open>Appending a node to the list of its class\<close>

lemma nodes_in_append:
  assumes N: "nodes_in fl bs" and b: "(y, n, a) \<in> set (layout 96 bs)" and k: "class_of n = k"
    and len: "length fl = 11"
  shows "nodes_in (fl[k := fl ! k @ [y]]) bs"
  unfolding nodes_in_def
proof (intro allI impI ballI)
  fix j x assume j: "j < 11" and x: "x \<in> set (fl[k := fl ! k @ [y]] ! j)"
  show "\<exists>n a. (x, n, a) \<in> set (layout 96 bs) \<and> class_of n = j"
  proof (cases "j = k \<and> x = y")
    case True
    then show ?thesis using b k by blast
  next
    case False
    then have "x \<in> set (fl ! j)" using x j len by (cases "j = k") auto
    then show ?thesis using N j by (simp add: nodes_in_def)
  qed
qed

lemma add_spec:
  assumes A: "arena_ok (heap_listp s) bs" and N: "nodes_in fl bs" and L: "links_ok s fl"
    and b: "(y, n, a) \<in> set (layout 96 bs)" and fresh: "\<forall>j<11. y \<notin> set (fl ! j)"
    and sz: "block_size s (off (heap_listp s) y) = word_of_int n" and kn: "class_of n = k"
    and s': "s' = add_to_free_list s (off (heap_listp s) y)"
  shows "links_ok s' (fl[k := fl ! k @ [y]]) \<and> nodes_in (fl[k := fl ! k @ [y]]) bs \<and>
         heap_listp s' = heap_listp s \<and> mem_brk s' = mem_brk s \<and>
         mem_max_addr s' = mem_max_addr s \<and>
         (\<forall>c. cell_ok c \<and> c \<notin> all_lcells (fl[k := fl ! k @ [y]]) \<longrightarrow>
              GET (mem s') (off (heap_listp s) c) = GET (mem s) (off (heap_listp s) c))"
proof -
  let ?B = "heap_listp s" and ?m = "mem s" and ?a = "8 * int k" and ?fl = "fl[k := fl ! k @ [y]]"
  define h where "h = last (?a # fl ! k)"
  define M where "M = (if k = 0 then store_ptr (store_ptr ?m (off ?B h) (off ?B y)) (off ?B y) 0
     else store_ptr (store_ptr (store_ptr ?m (off ?B h) (off ?B y)) (off ?B (y + 8)) (off ?B h))
            (off ?B y) 0)"
  have B: "al8 ?B" using A by (simp add: arena_ok_def)
  have k: "k < 11" using kn class_of_less [of n] by simp
  have len: "length fl = 11" using L by (simp add: links_ok_def)
  have lk: "list_ok s k (fl ! k)" "distinct (fl ! k)" using L k by (simp_all add: links_ok_def)
  have N': "nodes_in ?fl bs" using nodes_in_append [OF N b kn len] .
  have flk: "?fl ! k = fl ! k @ [y]" using len k by simp
  have flj: "?fl ! j = fl ! j" if "j \<noteq> k" for j using that by simp
  have yk: "y \<in> set (?fl ! k)" using flk by simp
  have old: "x \<in> set (?fl ! j)" if "x \<in> set (fl ! j)" for x j
    using that flk flj [of j] by (cases "j = k") simp_all
  have geo: "8 dvd x \<and> 96 \<le> x \<and> cell_ok x \<and> cell_ok (x + 4) \<and> cell_ok (x + 8) \<and>
      cell_ok (x + 12) \<and> cell_ok (x - 4)"
    if "x \<in> set (?fl ! j)" "j < 11" for x j
    using node_geo [OF A N' that(2,1)] by simp
  have sep: "(x = x' \<and> i = j) \<or> x + 16 \<le> x' \<or> x' + 16 \<le> x"
    if "x \<in> set (?fl ! i)" "x' \<in> set (?fl ! j)" "i < 11" "j < 11" for x x' i j
    using node_sep [OF A N' that(3,4,1,2)] .
  have gy: "8 dvd y" "96 \<le> y" "cell_ok y" "cell_ok (y + 4)" "cell_ok (y + 8)" "cell_ok (y + 12)"
    "cell_ok (y - 4)"
    using geo [OF yk k] by simp_all
  have rng: "16 \<le> n" "n < 2 ^ 32" 
  proof -
    have so: "sizes_ok bs" using A by (simp add: arena_ok_def)
    from layout_range [OF so b] show "16 \<le> n" by simp
    from layout_range [OF so b] A show "n < 2 ^ 32" by (simp add: arena_ok_def heap_end_def)
  qed
  then have n0: "0 \<le> n" by simp
  have ynew: "y \<notin> set (fl ! j)" if "j < 11" for j using fresh that by simp
  have far: "x + 16 \<le> y \<or> y + 16 \<le> x" if "x \<in> set (fl ! j)" "j < 11" for x j
    using sep [OF old [OF that(1)] yk that(2) k] ynew [OF that(2)] that(1) by auto
  have h_in: "h = ?a \<or> h \<in> set (fl ! k)" unfolding h_def by (rule last_anchor_cases)
  have gh: "8 dvd h" "cell_ok h" "cell_ok (h + 4)" "h + 16 \<le> y \<or> y + 16 \<le> h"
  proof -
    show "8 dvd h" using h_in geo [OF old k] by auto
    show "cell_ok h" "cell_ok (h + 4)" using h_in geo [OF old k] anchor_cell_ok [OF k] by auto
    show "h + 16 \<le> y \<or> y + 16 \<le> h" using h_in far [OF _ k] gy(2) k by auto
  qed
  have farK: "\<forall>x\<in>set (fl ! k). x + 16 \<le> y \<or> y + 16 \<le> x" using far [OF _ k] by blast
  have h96: "h = ?a \<or> 96 \<le> h" using h_in geo [OF old k] by auto
  text \<open>the state after the insertion\<close>
  have F1: "load_ptr M (off ?B c) =
      (if c = y then 0 else if k \<noteq> 0 \<and> c = y + 8 then off ?B h
       else if c = h then off ?B y else load_ptr ?m (off ?B c))"
    if "cell_ok c" "8 dvd c" for c
    using that B gy gh by (cases "k = 0") (auto simp add: M_def load_store_off)
  have F2: "GET M (off ?B c) = GET ?m (off ?B c)"
    if "cell_ok c" "c \<noteq> h" "c \<noteq> h + 4" "c \<noteq> y" "c \<noteq> y + 4"
      "k \<noteq> 0 \<longrightarrow> c \<noteq> y + 8 \<and> c \<noteq> y + 12" for c
    using that B gy gh by (cases "k = 0") (simp_all add: M_def GET_store_off)
  have hd_k: "head_of s k = off ?B h" using lk(1) by (simp add: list_ok_def h_def)
  have cw: "class_of (uint (word_of_int n :: 64 word)) = k"
    using class_of_word_of_int [OF n0 rng(2)] kn by simp
  have flh: "find_list_head s (word_of_int n) = off ?B h"
    by (simp add: find_list_head_class cw hd_k)
  have w16: "((word_of_int n :: 64 word) > 16) = (k \<noteq> 0)"
    using word_of_int_gt16 [OF n0 rng(2)] kn by simp
  have hdr: "GET M (off ?B (y - 4)) = GET ?m (off ?B (y - 4))"
    using F2 [of "y - 4"] gy gh by auto
  have bsz: "block_size (s\<lparr>mem := M\<rparr>) (off ?B y) = word_of_int n"
    using sz hdr by (simp add: block_size_def HDRP_def GET_SIZE_def WSIZE_def)
  have res: "s' = set_list_head (s\<lparr>mem := M\<rparr>) (word_of_int n) (off ?B y)"
  proof (cases "k = 0")
    case True
    then have "\<not> (word_of_int n :: 64 word) > 16" using w16 by simp
    then show ?thesis
      using bsz True unfolding s' add_to_free_list_def
      by (simp add: sz flh Let_def PUT_NEXT_PTR_def M_def)
  next
    case False
    then have "(word_of_int n :: 64 word) > 16" using w16 by simp
    then show ?thesis
      using bsz False unfolding s' add_to_free_list_def
      by (simp add: sz flh Let_def PUT_NEXT_PTR_def PUT_PRED_PTR_def M_def DSIZE_def)
  qed
  have fields: "heap_listp s' = ?B" "mem_brk s' = mem_brk s" "mem_max_addr s' = mem_max_addr s"
    "mem s' = M"
    by (simp_all add: res set_list_head_fields)
  have heads: "head_of s' j = (if j = k then off ?B y else head_of s j)" if "j < 11" for j
    using that cw by (simp add: res head_of_set_list_head)
  text \<open>the other lists\<close>
  have other: "list_ok s' j (fl ! j)" if j: "j < 11" "j \<noteq> k" for j
  proof (rule list_ok_frame)
    show "list_ok s j (fl ! j)" using L j by (simp add: links_ok_def)
    show "heap_listp s' = ?B" by (rule fields)
    show "head_of s' j = head_of s j" using heads j by simp
    show "\<forall>c\<in>cells8 j (fl ! j). load_ptr (mem s') (off ?B c) = load_ptr ?m (off ?B c)"
    proof
      fix c assume c: "c \<in> cells8 j (fl ! j)"
      then consider "c = 8 * int j" | "c \<in> set (fl ! j)"
        | x where "x \<in> set (fl ! j)" "c = x + 8"
        by (auto simp add: cells8_def split: if_splits)
      then have "cell_ok c \<and> 8 dvd c \<and> c \<noteq> y \<and> c \<noteq> y + 8 \<and> c \<noteq> h"
      proof cases
        case 1
        then show ?thesis
          using anchor_cell_ok [OF j(1)] h96 j gy(2) by auto
      next
        case 2
        have "c \<noteq> h"
        proof
          assume "c = h"
          then have "h \<in> set (fl ! k)" using h_in geo [OF old [OF 2] j(1)] k by auto
          from sep [OF old [OF this] old [OF 2] k j(1)] \<open>c = h\<close> j show False by simp
        qed
        then show ?thesis using geo [OF old [OF 2] j(1)] far [OF 2 j(1)] by auto
      next
        case 3
        have "c \<noteq> h"
        proof
          assume e: "c = h"
          then have "h \<in> set (fl ! k)" using h_in geo [OF old [OF 3(1)] j(1)] 3(2) k by auto
          from sep [OF old [OF this] old [OF 3(1)] k j(1)] e 3(2) j show False by simp
        qed
        then show ?thesis using geo [OF old [OF 3(1)] j(1)] far [OF 3(1) j(1)] 3(2) by auto
      qed
      then show "load_ptr (mem s') (off ?B c) = load_ptr ?m (off ?B c)"
        using F1 [of c] by (auto simp add: fields)
    qed
  qed
  text \<open>the list of the new node\<close>
  have anc: "?a \<notin> set (fl ! k @ [y])"
  proof
    assume "?a \<in> set (fl ! k @ [y])"
    then have "?a \<in> set (?fl ! k)" using flk by simp
    from geo [OF this k] k show False by simp
  qed
  have dist: "distinct (?a # fl ! k @ [y])" using anc lk(2) ynew [OF k] by simp
  have cells: "\<forall>c\<in>set (?a # fl ! k @ [y]). cell_ok c \<and> 8 dvd c"
    using geo [of _ k] flk k anchor_cell_ok [OF k] by auto
  have ch: "chain ?m ?B ?a (fl ! k)" using lk(1) by (simp add: list_ok_def)
  have cM: "chain M ?B ?a (fl ! k @ [y])"
  proof (rule chain_append_node [OF B ch dist cells], rule ballI)
    fix c assume c: "c \<in> set (?a # fl ! k @ [y])"
    have "c \<noteq> y + 8" using c farK gy(2) k by auto
    moreover have "cell_ok c" "8 dvd c" using cells c by blast+
    ultimately show "load_ptr M (off ?B c) =
        (if c = last (?a # fl ! k) then off ?B y else if c = y then 0 else load_ptr ?m (off ?B c))"
      using F1 [of c] gh(4) by (auto simp add: h_def)
  qed
  have pM: "preds M ?B ?a (fl ! k @ [y])" if k0: "k \<noteq> 0"
  proof -
    have p: "preds ?m ?B ?a (fl ! k)" using lk(1) k0 by (simp add: list_ok_def)
    have "preds M ?B ?a (fl ! k) = preds ?m ?B ?a (fl ! k)"
    proof (intro preds_cong ballI)
      fix x assume x: "x \<in> set (fl ! k)"
      have "x + 8 \<noteq> h"
      proof
        assume e: "x + 8 = h"
        then have "h \<in> set (fl ! k)" using h_in geo [OF old [OF x] k] k by auto
        from sep [OF old [OF this] old [OF x] k k] e show False by simp
      qed
      then show "load_ptr M (off ?B (x + 8)) = load_ptr ?m (off ?B (x + 8))"
        using F1 [of "x + 8"] geo [OF old [OF x] k] far [OF x k] by auto
    qed
    moreover have "load_ptr M (off ?B (y + 8)) = off ?B h"
      using F1 [of "y + 8"] gy k0 by simp
    ultimately show ?thesis using p by (simp add: preds_append h_def)
  qed
  have own: "list_ok s' k (fl ! k @ [y])"
    using cM pM heads [OF k] by (auto simp add: list_ok_def fields)
  have each: "list_ok s' j (?fl ! j) \<and> distinct (?fl ! j)" if j: "j < 11" for j
  proof (cases "j = k")
    case True
    then show ?thesis using own flk lk(2) ynew [OF k] by simp
  next
    case False
    then show ?thesis using other [OF j False] L j by (simp add: links_ok_def)
  qed
  have links: "links_ok s' ?fl"
    using each len by (simp add: links_ok_def)
  have frame: "GET (mem s') (off ?B c) = GET ?m (off ?B c)"
    if c: "cell_ok c" "c \<notin> all_lcells ?fl" for c
  proof -
    have "c \<notin> lcells k (?fl ! k)" using c(2) k by (auto simp add: all_lcells_def)
    then have nk: "c \<notin> lcells k (fl ! k @ [y])" unfolding flk .
    have "c \<noteq> h \<and> c \<noteq> h + 4" using nk h_in by (auto simp add: lcells_def)
    moreover have "c \<noteq> y \<and> c \<noteq> y + 4" using nk by (auto simp add: lcells_def)
    moreover have "c \<noteq> y + 8 \<and> c \<noteq> y + 12" if "k \<noteq> 0"
      using nk that by (auto simp add: lcells_def)
    ultimately show ?thesis using F2 [of c] c(1) by (simp add: fields)
  qed
  show ?thesis
    using links N' fields frame by blast
qed

section \<open>The tags, block by block\<close>

lemma blocks_ok_iff:
  "blocks_ok m B x bs =
     (sizes_ok bs \<and>
      (\<forall>e\<in>set (layout x bs). GET m (off B (fst e - 4)) = tag (fst (snd e)) (snd (snd e)) \<and>
          GET m (off B (fst e + fst (snd e) - 8)) = tag (fst (snd e)) (snd (snd e))) \<and>
      GET m (off B (x + sum_list (map fst bs) - 4)) = 1)"
proof (induction bs arbitrary: x)
  case Nil
  show ?case by (simp add: sizes_ok_simps)
next
  case (Cons b bs)
  have e: "x + fst b + sum_list (map fst bs) - 4 = x + (fst b + sum_list (map fst bs)) - 4"
    by simp
  show ?case
    unfolding blocks_ok.simps layout.simps Cons.IH sizes_ok_simps list.simps sum_list.Cons
      ball_simps fst_conv snd_conv e
    by blast
qed

lemma free_offs_set:
  "set (free_offs k bs) = {y. \<exists>n. (y, n, False) \<in> set (layout 96 bs) \<and> class_of n = k}"
  by (force simp add: free_offs_def)

lemma lists_ok_iff: "lists_ok s bs fl = (links_ok s fl \<and> cover fl bs)"
  by (auto simp add: lists_ok_def links_ok_def cover_def free_offs_set list_all_iff)

lemma cover_nodes_in: "cover fl bs \<Longrightarrow> nodes_in fl bs"
  by (fastforce simp add: cover_def nodes_in_def)

lemma layout_fun:
  assumes "sizes_ok bs" "(y, n, a) \<in> set (layout x bs)" "(y, n', a') \<in> set (layout x bs)"
  shows "n' = n \<and> a' = a"
  using layout_disjoint [OF assms] layout_range [OF assms(1,2)] layout_range [OF assms(1,3)]
  by auto

lemma tcells_iff:
  "(c \<in> tcells x bs) =
     (c = x + sum_list (map fst bs) - 4 \<or>
      (\<exists>e\<in>set (layout x bs). c = fst e - 4 \<or> c = fst e + fst (snd e) - 8))"
proof (induction bs arbitrary: x)
  case Nil
  show ?case by simp
next
  case (Cons b bs)
  show ?case
    unfolding tcells.simps layout.simps list.simps sum_list.Cons Un_iff Cons.IH bex_simps
      fst_conv snd_conv insert_iff empty_iff
    by (auto simp add: algebra_simps)
qed

text \<open>No tag lies in a cell of a link.\<close>

lemma tcells_not_lcells:
  assumes A: "arena_ok B bs" and N: "nodes_in fl bs"
    and c: "c \<in> tcells 96 bs \<or> c = - 4 \<or> c = 88"
  shows "c \<notin> all_lcells fl \<and> cell_ok c"
proof -
  have so: "sizes_ok bs" using A by (simp add: arena_ok_def)
  have he: "heap_end bs < 2 ^ 32" using A by (simp add: arena_ok_def)
  have "4 dvd c - 96 \<Longrightarrow> 4 dvd c" by presburger
  then have r: "c = - 4 \<or> 88 \<le> c" "4 dvd c" "c \<le> heap_end bs - 4"
    using c tcells_range [OF so, of c 96] sizes_ok_sum [OF so]
    by (auto simp add: heap_end_def)
  have ok: "cell_ok c" using r he by (auto simp add: cell_ok_def)
  have "c \<notin> lcells k (fl ! k)" if k: "k < 11" for k
  proof
    assume "c \<in> lcells k (fl ! k)"
    then consider "c = 8 * int k \<or> c = 8 * int k + 4"
      | y where "y \<in> set (fl ! k)" "c = y \<or> c = y + 4"
      | y where "y \<in> set (fl ! k)" "k \<noteq> 0" "c = y + 8 \<or> c = y + 12"
      by (auto simp add: lcells_def split: if_splits)
    then show False
    proof cases
      case 1
      then show False using r k by auto
    next
      case 2
      obtain n a where b: "(y, n, a) \<in> set (layout 96 bs)"
        using N k 2(1) unfolding nodes_in_def by blast
      have "96 \<le> y" "16 \<le> n" using layout_range [OF so b] by simp_all
      moreover have "c \<in> tcells 96 bs" using c 2(2) \<open>96 \<le> y\<close> by auto
      ultimately show False using tcells_outside [OF so b, of c] 2(2) by auto
    next
      case 3
      obtain n a where b: "(y, n, a) \<in> set (layout 96 bs)" "class_of n = k"
        using N k 3(1) unfolding nodes_in_def by blast
      have "96 \<le> y" "8 dvd n" using layout_range [OF so b(1)] by simp_all
      moreover have "16 < n" using b(2) 3(2) by (auto simp add: class_of_def split: if_splits)
      then have "24 \<le> n" using \<open>8 dvd n\<close> by presburger
      moreover have "c \<in> tcells 96 bs" using c 3(3) \<open>96 \<le> y\<close> by auto
      ultimately show False using tcells_outside [OF so b(1), of c] 3(3) by auto
    qed
  qed
  then show ?thesis using ok by (auto simp add: all_lcells_def)
qed

lemma tags_ok_iff:
  "tags_ok s bs =
     (arena_ok (heap_listp s) bs \<and> mem_brk s = off (heap_listp s) (heap_end bs) \<and>
      GET (mem s) (off (heap_listp s) (- 4)) = 97 \<and> GET (mem s) (off (heap_listp s) 88) = 97 \<and>
      (\<forall>e\<in>set (layout 96 bs).
          GET (mem s) (off (heap_listp s) (fst e - 4)) = tag (fst (snd e)) (snd (snd e)) \<and>
          GET (mem s) (off (heap_listp s) (fst e + fst (snd e) - 8)) =
            tag (fst (snd e)) (snd (snd e))) \<and>
      GET (mem s) (off (heap_listp s) (heap_end bs - 4)) = 1)"
  unfolding tags_ok_def arena_ok_def blocks_ok_iff heap_end_def by blast

text \<open>An operation on the lists leaves the tags as they are.\<close>

lemma tags_frame:
  assumes T: "tags_ok s bs" and N: "nodes_in fl bs"
    and f: "heap_listp s' = heap_listp s" "mem_brk s' = mem_brk s"
    and fr: "\<forall>c. cell_ok c \<and> c \<notin> all_lcells fl \<longrightarrow>
               GET (mem s') (off (heap_listp s) c) = GET (mem s) (off (heap_listp s) c)"
  shows "tags_ok s' bs"
proof -
  have A: "arena_ok (heap_listp s) bs" using T by (rule arena_ok_tags)
  have k: "GET (mem s') (off (heap_listp s) c) = GET (mem s) (off (heap_listp s) c)"
    if "c \<in> tcells 96 bs \<or> c = - 4 \<or> c = 88" for c
    using tcells_not_lcells [OF A N that] fr by blast
  have "blocks_ok (mem s') (heap_listp s) 96 bs = blocks_ok (mem s) (heap_listp s) 96 bs"
    by (rule blocks_ok_cong) (simp add: k)
  then show ?thesis using T k [of "- 4"] k [of 88] by (simp add: tags_ok_def f)
qed

text \<open>Writing a tag leaves the lists as they are.\<close>

lemma links_put_tag:
  assumes A: "arena_ok (heap_listp s) bs" and N: "nodes_in fl bs" and L: "links_ok s fl"
    and c: "cell_ok c" "c \<notin> all_lcells fl"
  shows "links_ok (put_tag s (off (heap_listp s) c) v) fl"
proof -
  let ?B = "heap_listp s" and ?s = "put_tag s (off (heap_listp s) c) v"
  have B: "al8 ?B" using A by (simp add: arena_ok_def)
  have len: "length fl = 11" using L by (simp add: links_ok_def)
  have "list_ok ?s j (fl ! j)" if j: "j < 11" for j
  proof (rule list_ok_frame)
    show "list_ok s j (fl ! j)" using L j by (simp add: links_ok_def)
    show "heap_listp ?s = ?B" by (simp add: put_tag_def)
    show "head_of ?s j = head_of s j" by (simp add: put_tag_def)
    show "\<forall>t\<in>cells8 j (fl ! j). load_ptr (mem ?s) (off ?B t) = load_ptr (mem s) (off ?B t)"
    proof
      fix t assume t: "t \<in> cells8 j (fl ! j)"
      have g: "8 dvd y \<and> cell_ok y \<and> cell_ok (y + 8)" if "y \<in> set (fl ! j)" for y
        using node_geo [OF A N j that] by simp
      have "cell_ok t \<and> 8 dvd t" using t g anchor_cell_ok [OF j]
        by (auto simp add: cells8_def split: if_splits)
      moreover have "t \<in> lcells j (fl ! j) \<and> t + 4 \<in> lcells j (fl ! j)"
        using t by (auto simp add: cells8_def lcells_def split: if_splits)
      then have "c \<noteq> t \<and> c \<noteq> t + 4" using c(2) j by (auto simp add: all_lcells_def)
      ultimately show "load_ptr (mem ?s) (off ?B t) = load_ptr (mem s) (off ?B t)"
        using B c(1) by (simp add: put_tag_def load_PUT_off)
    qed
  qed
  then show ?thesis using L by (simp add: links_ok_def)
qed

lemma nodes_in_remove: "nodes_in fl bs \<Longrightarrow> nodes_in (fl[k := remove1 y (fl ! k)]) bs"
  unfolding nodes_in_def
proof (intro allI impI ballI)
  fix j x assume N: "\<forall>k<11. \<forall>y\<in>set (fl ! k). \<exists>n a. (y, n, a) \<in> set (layout 96 bs) \<and> class_of n = k"
    and j: "j < 11" and x: "x \<in> set (fl[k := remove1 y (fl ! k)] ! j)"
  have "x \<in> set (fl ! j)"
  proof (cases "j = k \<and> k < length fl")
    case True
    then show ?thesis using x notin_set_remove1 [of x "fl ! k" y] by auto
  next
    case False
    then show ?thesis using x by (cases "k < length fl") (auto simp add: list_update_beyond)
  qed
  then show "\<exists>n a. (x, n, a) \<in> set (layout 96 bs) \<and> class_of n = j" using N j by simp
qed

lemma all_lcells_remove:
  assumes "length fl = 11"
  shows "all_lcells (fl[k := remove1 y (fl ! k)]) \<subseteq> all_lcells fl"
proof
  fix c assume "c \<in> all_lcells (fl[k := remove1 y (fl ! k)])"
  then obtain j where j: "j < 11" "c \<in> lcells j (fl[k := remove1 y (fl ! k)] ! j)"
    by (auto simp add: all_lcells_def)
  have "set (fl[k := remove1 y (fl ! k)] ! j) \<subseteq> set (fl ! j)"
    using set_remove1_subset [of y "fl ! k"]
    by (cases "k < length fl") (auto simp add: list_update_beyond nth_list_update)
  then have "c \<in> lcells j (fl ! j)" using j(2) by (auto simp add: lcells_def split: if_splits)
  then show "c \<in> all_lcells fl" using j(1) by (auto simp add: all_lcells_def)
qed

section \<open>Replacing a run of blocks\<close>

lemma heap_end_append: "heap_end (as @ bs) = heap_end as + sum_list (map fst bs)"
  by (simp add: heap_end_def)

lemma layout_mid:
  "set (layout 96 (pre @ mids @ post)) =
     set (layout 96 pre) \<union> set (layout (heap_end pre) mids) \<union>
     set (layout (heap_end pre + sum_list (map fst mids)) post)"
  by (simp add: layout_append heap_end_def Un_assoc)

lemma tcells_block:
  "e \<in> set (layout x bs) \<Longrightarrow> fst e - 4 \<in> tcells x bs \<and> fst e + fst (snd e) - 8 \<in> tcells x bs"
  unfolding tcells_iff by blast

lemma tcells_epilogue: "x + sum_list (map fst bs) - 4 \<in> tcells x bs"
  unfolding tcells_iff by blast

text \<open>
  The blocks \<open>old\<close> of a heap are replaced by the blocks \<open>new\<close> of the same total size: the
  tags of \<open>new\<close> are in place, and the tags around them are as they were.
\<close>

lemma retag:
  assumes T: "tags_ok s (pre @ old @ post)"
    and S: "sum_list (map fst new) = sum_list (map fst old)" and so: "sizes_ok new"
    and f: "heap_listp s' = heap_listp s" "mem_brk s' = mem_brk s"
    and nw: "\<forall>e\<in>set (layout (heap_end pre) new).
        GET (mem s') (off (heap_listp s) (fst e - 4)) = tag (fst (snd e)) (snd (snd e)) \<and>
        GET (mem s') (off (heap_listp s) (fst e + fst (snd e) - 8)) = tag (fst (snd e)) (snd (snd e))"
    and un: "\<forall>c. (c \<in> tcells 96 (pre @ old @ post) \<or> c = - 4 \<or> c = 88) \<and>
        (c \<in> tcells 96 (pre @ new @ post) \<or> c = - 4 \<or> c = 88) \<and>
        (c < heap_end pre - 4 \<or> heap_end pre + sum_list (map fst old) - 8 < c) \<longrightarrow>
        GET (mem s') (off (heap_listp s) c) = GET (mem s) (off (heap_listp s) c)"
  shows "tags_ok s' (pre @ new @ post)"
proof -
  let ?B = "heap_listp s" and ?X = "heap_end pre" and ?S = "sum_list (map fst old)"
  let ?bs = "pre @ old @ post" and ?bs' = "pre @ new @ post"
  have A: "arena_ok ?B ?bs" using T by (rule arena_ok_tags)
  have T': "mem_brk s = off ?B (heap_end ?bs)" "GET (mem s) (off ?B (- 4)) = 97"
    "GET (mem s) (off ?B 88) = 97" "GET (mem s) (off ?B (heap_end ?bs - 4)) = 1"
    "\<forall>e\<in>set (layout 96 ?bs).
        GET (mem s) (off ?B (fst e - 4)) = tag (fst (snd e)) (snd (snd e)) \<and>
        GET (mem s) (off ?B (fst e + fst (snd e) - 8)) = tag (fst (snd e)) (snd (snd e))"
    using T unfolding tags_ok_iff by blast+
  have he: "heap_end ?bs' = heap_end ?bs" using S by (simp add: heap_end_def)
  have sz: "sizes_ok pre" "sizes_ok old" "sizes_ok post"
    using A by (simp_all add: arena_ok_def sizes_ok_simps)
  have A': "arena_ok ?B ?bs'"
    using A so sz unfolding arena_ok_def he by (simp add: sizes_ok_simps)
  have X: "96 \<le> ?X" using sizes_ok_sum [OF sz(1)] by (simp add: heap_end_def)
  have P: "0 \<le> sum_list (map fst post)" "0 \<le> ?S"
    using sizes_ok_sum [OF sz(3)] sizes_ok_sum [OF sz(2)] by simp_all
  have un': "GET (mem s') (off ?B c) = GET (mem s) (off ?B c)"
    if "c \<in> tcells 96 ?bs \<or> c = - 4 \<or> c = 88" "c \<in> tcells 96 ?bs' \<or> c = - 4 \<or> c = 88"
      "c < ?X - 4 \<or> ?X + ?S - 8 < c" for c
    using un that by blast
  have u1: "GET (mem s') (off ?B (- 4)) = 97" using un' [of "- 4"] X T'(2) by simp
  have u2: "GET (mem s') (off ?B 88) = 97" using un' [of 88] X T'(3) by simp
  have ep: "heap_end ?bs - 4 \<in> tcells 96 ?bs" "heap_end ?bs - 4 \<in> tcells 96 ?bs'"
    using tcells_epilogue [of 96 ?bs] tcells_epilogue [of 96 ?bs'] he
    by (simp_all add: heap_end_def)
  have "?X + ?S - 8 < heap_end ?bs - 4" using P by (simp add: heap_end_def)
  then have u3: "GET (mem s') (off ?B (heap_end ?bs - 4)) = 1"
    using un' [of "heap_end ?bs - 4"] ep T'(4) by simp
  have outer: "GET (mem s') (off ?B (fst e - 4)) = tag (fst (snd e)) (snd (snd e)) \<and>
        GET (mem s') (off ?B (fst e + fst (snd e) - 8)) = tag (fst (snd e)) (snd (snd e))"
    if e: "e \<in> set (layout 96 pre) \<or> e \<in> set (layout (?X + ?S) post)" for e
  proof -
    have i: "e \<in> set (layout 96 ?bs)" using e unfolding layout_mid by blast
    have i': "e \<in> set (layout 96 ?bs')" using e unfolding layout_mid S by blast
    have far: "fst e + fst (snd e) \<le> ?X \<or> ?X + ?S \<le> fst e" "16 \<le> fst (snd e)"
    proof -
      obtain y n a where ye: "e = (y, n, a)" by (cases e) auto
      show "fst e + fst (snd e) \<le> ?X \<or> ?X + ?S \<le> fst e"
        using e layout_range [OF sz(1), of y n a 96] layout_range [OF sz(3), of y n a "?X + ?S"]
        unfolding ye by (auto simp add: heap_end_def)
      show "16 \<le> fst (snd e)"
        using e layout_range [OF sz(1), of y n a 96] layout_range [OF sz(3), of y n a "?X + ?S"]
        unfolding ye by auto
    qed
    have "fst e - 4 < ?X - 4 \<or> ?X + ?S - 8 < fst e - 4" using far by arith
    then have h: "GET (mem s') (off ?B (fst e - 4)) = GET (mem s) (off ?B (fst e - 4))"
      using un' tcells_block [OF i] tcells_block [OF i'] by blast
    have "fst e + fst (snd e) - 8 < ?X - 4 \<or> ?X + ?S - 8 < fst e + fst (snd e) - 8"
      using far by arith
    then have g: "GET (mem s') (off ?B (fst e + fst (snd e) - 8)) =
        GET (mem s) (off ?B (fst e + fst (snd e) - 8))"
      using un' tcells_block [OF i] tcells_block [OF i'] by blast
    show ?thesis using T'(5) i h g by simp
  qed
  have all: "\<forall>e\<in>set (layout 96 ?bs').
        GET (mem s') (off ?B (fst e - 4)) = tag (fst (snd e)) (snd (snd e)) \<and>
        GET (mem s') (off ?B (fst e + fst (snd e) - 8)) = tag (fst (snd e)) (snd (snd e))"
    unfolding layout_mid S using outer nw by blast
  show ?thesis
    unfolding tags_ok_iff f he using A' T'(1) u1 u2 u3 all by blast
qed

section \<open>Reading the tags\<close>

lemma HDRP_off: "HDRP (off B y) = off B (y - 4)"
  by (simp add: HDRP_def WSIZE_def)

lemma hdr_reads:
  assumes "GET m (off B (y - 4)) = tag n a" "8 dvd n" "0 \<le> n" "n < 2 ^ 32"
  shows "NEXT_BLKP m (off B y) = off B (y + n)" "FTRP m (off B y) = off B (y + n - 8)"
    "GET_ALLOC m (HDRP (off B y)) = (if a then 1 else 0)"
    "GET_SIZE m (HDRP (off B y)) = word_of_int n"
    "(ucast (GET_SIZE m (HDRP (off B y))) :: 64 word) = word_of_int n"
  using GET_SIZE_tag [OF assms] GET_ALLOC_tag [OF assms(1,2)]
  by (simp_all add: NEXT_BLKP_def FTRP_def HDRP_def WSIZE_def DSIZE_def off_add_int)

lemma block_size_tag:
  assumes "GET (mem s) (off B (y - 4)) = tag n a" "8 dvd n" "0 \<le> n" "n < 2 ^ 32"
  shows "block_size s (off B y) = word_of_int n"
  using hdr_reads(5) [OF assms] by (simp add: block_size_def)

lemma ftr_reads:
  assumes "GET m (off B (y - 8)) = tag n a" "8 dvd n" "0 \<le> n" "n < 2 ^ 32"
  shows "PREV_BLKP m (off B y) = off B (y - n)"
  using GET_SIZE_tag [OF assms]
  by (simp add: PREV_BLKP_def DSIZE_def off_sub_int)

lemma tag_97: "tag 96 True = 97" and tag_1: "tag 0 True = 1"
  by (simp_all add: tag_def)

section \<open>The steps of an operation\<close>

lemma remove_step:
  assumes A: "arena_ok (heap_listp s) bs" and N: "nodes_in fl bs" and L: "links_ok s fl"
    and k: "k < 11" and y: "y \<in> set (fl ! k)"
    and h: "GET (mem s) (off (heap_listp s) (y - 4)) = tag n a"
    and b: "(y, n, a') \<in> set (layout 96 bs)"
  shows "\<exists>s'. remove_frome_free_list s (off (heap_listp s) y) = Some s' \<and>
              links_ok s' (fl[k := remove1 y (fl ! k)]) \<and>
              nodes_in (fl[k := remove1 y (fl ! k)]) bs \<and>
              heap_listp s' = heap_listp s \<and> mem_brk s' = mem_brk s \<and>
              mem_max_addr s' = mem_max_addr s \<and>
              (\<forall>c. cell_ok c \<and> c \<notin> all_lcells fl \<longrightarrow>
                   GET (mem s') (off (heap_listp s) c) = GET (mem s) (off (heap_listp s) c))"
proof -
  have so: "sizes_ok bs" and he: "heap_end bs < 2 ^ 32" using A by (simp_all add: arena_ok_def)
  obtain n' a'' where b': "(y, n', a'') \<in> set (layout 96 bs)" "class_of n' = k"
    using N k y unfolding nodes_in_def by blast
  have kn: "class_of n = k" using layout_fun [OF so b b'(1)] b'(2) by simp
  have r: "16 \<le> n" "8 dvd n" "n < 2 ^ 32"
    using layout_range [OF so b] he by (simp_all add: heap_end_def)
  have sz: "block_size s (off (heap_listp s) y) = word_of_int n"
    using block_size_tag [OF h r(2) _ r(3)] r(1) by simp
  have n0: "0 \<le> n" using r(1) by simp
  from remove_spec [OF A N L k y sz n0 r(3) kn] nodes_in_remove [OF N, of k y]
  show ?thesis by blast
qed

lemma tag_step:
  assumes A: "arena_ok (heap_listp s) bs" and N: "nodes_in fl bs" and L: "links_ok s fl"
    and c: "c \<in> tcells 96 bs"
  shows "links_ok (put_tag s (off (heap_listp s) c) v) fl"
    "heap_listp (put_tag s (off (heap_listp s) c) v) = heap_listp s"
    "mem_brk (put_tag s (off (heap_listp s) c) v) = mem_brk s"
    "mem_max_addr (put_tag s (off (heap_listp s) c) v) = mem_max_addr s"
    "\<And>t. cell_ok t \<Longrightarrow> GET (mem (put_tag s (off (heap_listp s) c) v)) (off (heap_listp s) t) =
        (if t = c then ucast v else GET (mem s) (off (heap_listp s) t))"
proof -
  have B: "al8 (heap_listp s)" using A by (simp add: arena_ok_def)
  have cc: "c \<notin> all_lcells fl" "cell_ok c" using tcells_not_lcells [OF A N] c by simp_all
  show "links_ok (put_tag s (off (heap_listp s) c) v) fl"
    using links_put_tag [OF A N L cc(2,1)] .
  show "heap_listp (put_tag s (off (heap_listp s) c) v) = heap_listp s"
    "mem_brk (put_tag s (off (heap_listp s) c) v) = mem_brk s"
    "mem_max_addr (put_tag s (off (heap_listp s) c) v) = mem_max_addr s"
    by (simp_all add: put_tag_def)
  show "GET (mem (put_tag s (off (heap_listp s) c) v)) (off (heap_listp s) t) =
        (if t = c then ucast v else GET (mem s) (off (heap_listp s) t))" if "cell_ok t" for t
    using GET_PUT_off [OF B that cc(2)] by (simp add: put_tag_def)
qed

lemma ucast_sum_tag:
  "(ucast (PACK (word_of_int n + word_of_int n') 0) :: 32 word) = tag (n + n') False"
  "(ucast (PACK (word_of_int n + word_of_int n' + word_of_int n'') 0) :: 32 word) =
     tag (n + n' + n'') False"
  using ucast_PACK(2) [of "n + n'"] ucast_PACK(2) [of "n + n' + n''"] by simp_all

lemma node_class_unique:
  assumes "arena_ok B bs" "nodes_in fl bs" "i < 11" "j < 11" "y \<in> set (fl ! i)" "y \<in> set (fl ! j)"
  shows "i = j"
  using node_sep [OF assms] by simp

lemma remove_stepB:
  assumes hB: "heap_listp s = B"
    and A: "arena_ok B bs" and N: "nodes_in fl bs" and L: "links_ok s fl"
    and k: "k < 11" and y: "y \<in> set (fl ! k)"
    and h: "GET (mem s) (off B (y - 4)) = tag n a"
    and b: "(y, n, a') \<in> set (layout 96 bs)"
  shows "\<exists>s'. remove_frome_free_list s (off B y) = Some s' \<and>
              heap_listp s' = B \<and> mem_brk s' = mem_brk s \<and> mem_max_addr s' = mem_max_addr s \<and>
              links_ok s' (fl[k := remove1 y (fl ! k)]) \<and>
              nodes_in (fl[k := remove1 y (fl ! k)]) bs \<and>
              (\<forall>j<11. set (fl[k := remove1 y (fl ! k)] ! j) = set (fl ! j) - {y}) \<and>
              (\<forall>c. c \<in> tcells 96 bs \<or> c = - 4 \<or> c = 88 \<longrightarrow>
                   GET (mem s') (off B c) = GET (mem s) (off B c))"
proof -
  have A': "arena_ok (heap_listp s) bs" using A hB by simp
  have h': "GET (mem s) (off (heap_listp s) (y - 4)) = tag n a" using h hB by simp
  from remove_step [OF A' N L k y h' b] obtain s'
    where r: "remove_frome_free_list s (off B y) = Some s'"
      "links_ok s' (fl[k := remove1 y (fl ! k)])" "nodes_in (fl[k := remove1 y (fl ! k)]) bs"
      "heap_listp s' = B" "mem_brk s' = mem_brk s" "mem_max_addr s' = mem_max_addr s"
      "\<forall>c. cell_ok c \<and> c \<notin> all_lcells fl \<longrightarrow> GET (mem s') (off B c) = GET (mem s) (off B c)"
    unfolding hB by blast
  have len: "length fl = 11" and d: "distinct (fl ! k)" using L k by (simp_all add: links_ok_def)
  have sets: "set (fl[k := remove1 y (fl ! k)] ! j) = set (fl ! j) - {y}" if j: "j < 11" for j
  proof (cases "j = k")
    case True
    then show ?thesis using len k d by simp
  next
    case False
    have "y \<notin> set (fl ! j)" using node_class_unique [OF A N j k _ y] False by blast
    then show ?thesis using False by simp
  qed
  have fr: "GET (mem s') (off B c) = GET (mem s) (off B c)"
    if "c \<in> tcells 96 bs \<or> c = - 4 \<or> c = 88" for c
    using tcells_not_lcells [OF A N that] r(7) by blast
  show ?thesis using r(1-6) sets fr by blast
qed

lemma tag_stepB:
  assumes hB: "heap_listp s = B"
    and A: "arena_ok B bs" and N: "nodes_in fl bs" and L: "links_ok s fl"
    and c: "c \<in> tcells 96 bs" and s': "s' = put_tag s (off B c) v"
  shows "heap_listp s' = B \<and> mem_brk s' = mem_brk s \<and> mem_max_addr s' = mem_max_addr s \<and>
         links_ok s' fl \<and>
         (\<forall>t. cell_ok t \<longrightarrow>
            GET (mem s') (off B t) = (if t = c then ucast v else GET (mem s) (off B t)))"
proof -
  have A': "arena_ok (heap_listp s) bs" using A hB by simp
  show ?thesis
    unfolding s' using tag_step [OF A' N L c, where v = v] unfolding hB by blast
qed

lemma add_stepB:
  assumes hB: "heap_listp s = B"
    and A: "arena_ok B bs" and N: "nodes_in fl bs" and L: "links_ok s fl"
    and b: "(y, n, a) \<in> set (layout 96 bs)" and fresh: "\<forall>j<11. y \<notin> set (fl ! j)"
    and h: "GET (mem s) (off B (y - 4)) = tag n a'"
    and s': "s' = add_to_free_list s (off B y)"
  shows "heap_listp s' = B \<and> mem_brk s' = mem_brk s \<and> mem_max_addr s' = mem_max_addr s \<and>
         links_ok s' (fl[class_of n := fl ! class_of n @ [y]]) \<and>
         nodes_in (fl[class_of n := fl ! class_of n @ [y]]) bs \<and>
         (\<forall>j<11. set (fl[class_of n := fl ! class_of n @ [y]] ! j) =
                  set (fl ! j) \<union> (if j = class_of n then {y} else {})) \<and>
         (\<forall>c. c \<in> tcells 96 bs \<or> c = - 4 \<or> c = 88 \<longrightarrow>
              GET (mem s') (off B c) = GET (mem s) (off B c))"
proof -
  let ?fl = "fl[class_of n := fl ! class_of n @ [y]]"
  have A': "arena_ok (heap_listp s) bs" using A hB by simp
  have so: "sizes_ok bs" and he: "heap_end bs < 2 ^ 32" using A by (simp_all add: arena_ok_def)
  have r: "16 \<le> n" "8 dvd n" "n < 2 ^ 32"
    using layout_range [OF so b] he by (simp_all add: heap_end_def)
  have sz: "block_size s (off (heap_listp s) y) = word_of_int n"
    unfolding hB using block_size_tag [OF h r(2) _ r(3)] r(1) by simp
  have s'': "s' = add_to_free_list s (off (heap_listp s) y)" using s' hB by simp
  from add_spec [OF A' N L b fresh sz refl s'']
  have r': "links_ok s' ?fl" "nodes_in ?fl bs" "heap_listp s' = B" "mem_brk s' = mem_brk s"
    "mem_max_addr s' = mem_max_addr s"
    "\<forall>c. cell_ok c \<and> c \<notin> all_lcells ?fl \<longrightarrow> GET (mem s') (off B c) = GET (mem s) (off B c)"
    unfolding hB by blast+
  have len: "length fl = 11" using L by (simp add: links_ok_def)
  have sets: "set (?fl ! j) = set (fl ! j) \<union> (if j = class_of n then {y} else {})"
    if j: "j < 11" for j
    using len j by (cases "j = class_of n") simp_all
  have fr: "GET (mem s') (off B c) = GET (mem s) (off B c)"
    if "c \<in> tcells 96 bs \<or> c = - 4 \<or> c = 88" for c
    using tcells_not_lcells [OF A r'(2) that] r'(6) by blast
  show ?thesis using r'(1-5) sets fr by blast
qed

text \<open>The lists after the blocks \<open>old\<close> were replaced by the blocks \<open>new\<close>.\<close>

lemma layout_offsets:
  assumes so: "sizes_ok pre" "sizes_ok mids" "sizes_ok post"
    and e: "(y, n, a) \<in> set (layout 96 pre) \<or>
            (y, n, a) \<in> set (layout (heap_end pre + sum_list (map fst mids)) post)"
  shows "y < heap_end pre \<or> heap_end pre + sum_list (map fst mids) \<le> y"
  using e layout_range [OF so(1), of y n a 96]
    layout_range [OF so(3), of y n a "heap_end pre + sum_list (map fst mids)"]
  by (auto simp add: heap_end_def)

lemma layout_inside:
  assumes so: "sizes_ok mids" and e: "(y, n, a) \<in> set (layout x mids)"
  shows "x \<le> y \<and> y < x + sum_list (map fst mids)"
  using layout_range [OF so e] by auto

lemma cover_replace:
  assumes C: "cover fl (pre @ old @ post)" and so: "sizes_ok (pre @ old @ post)" "sizes_ok new"
    and S: "sum_list (map fst new) = sum_list (map fst old)"
    and F: "\<forall>j<11. set (fl' ! j) =
        (set (fl ! j) - fst ` set (layout (heap_end pre) old)) \<union>
        {y. \<exists>m. (y, m, False) \<in> set (layout (heap_end pre) new) \<and> class_of m = j}"
  shows "cover fl' (pre @ new @ post)"
  unfolding cover_def
proof (intro allI impI)
  fix j :: nat assume j: "j < 11"
  let ?X = "heap_end pre" and ?S = "sum_list (map fst old)"
  have sp: "sizes_ok pre" "sizes_ok old" "sizes_ok post" using so(1) by (simp_all add: sizes_ok_simps)
  have Cj: "set (fl ! j) = {y. \<exists>n. (y, n, False) \<in> set (layout 96 (pre @ old @ post)) \<and> class_of n = j}"
    using C j by (simp add: cover_def)
  have out: "y \<notin> fst ` set (layout ?X old)"
    if "(y, n, a) \<in> set (layout 96 pre) \<or> (y, n, a) \<in> set (layout (?X + ?S) post)" for y n a
  proof
    assume "y \<in> fst ` set (layout ?X old)"
    then obtain n' a' where "(y, n', a') \<in> set (layout ?X old)" by force
    from layout_inside [OF sp(2) this] layout_offsets [OF sp that] show False by simp
  qed
  show "set (fl' ! j) = {y. \<exists>n. (y, n, False) \<in> set (layout 96 (pre @ new @ post)) \<and> class_of n = j}"
    unfolding F [rule_format, OF j] Cj layout_mid S
  proof (intro set_eqI iffI)
    fix y
    assume "y \<in> {y. \<exists>n. (y, n, False) \<in> set (layout 96 pre) \<union> set (layout ?X old) \<union>
                  set (layout (?X + ?S) post) \<and> class_of n = j} - fst ` set (layout ?X old) \<union>
               {y. \<exists>m. (y, m, False) \<in> set (layout ?X new) \<and> class_of m = j}"
    then show "y \<in> {y. \<exists>n. (y, n, False) \<in> set (layout 96 pre) \<union> set (layout ?X new) \<union>
                  set (layout (?X + ?S) post) \<and> class_of n = j}"
      by force
  next
    fix y
    assume "y \<in> {y. \<exists>n. (y, n, False) \<in> set (layout 96 pre) \<union> set (layout ?X new) \<union>
                  set (layout (?X + ?S) post) \<and> class_of n = j}"
    then obtain n where n: "(y, n, False) \<in> set (layout 96 pre) \<or>
        (y, n, False) \<in> set (layout (?X + ?S) post) \<or> (y, n, False) \<in> set (layout ?X new)"
      "class_of n = j"
      by blast
    show "y \<in> {y. \<exists>n. (y, n, False) \<in> set (layout 96 pre) \<union> set (layout ?X old) \<union>
                  set (layout (?X + ?S) post) \<and> class_of n = j} - fst ` set (layout ?X old) \<union>
               {y. \<exists>m. (y, m, False) \<in> set (layout ?X new) \<and> class_of m = j}"
    proof (cases "(y, n, False) \<in> set (layout ?X new)")
      case True
      then show ?thesis using n(2) by blast
    next
      case False
      then have o: "(y, n, False) \<in> set (layout 96 pre) \<or> (y, n, False) \<in> set (layout (?X + ?S) post)"
        using n(1) by blast
      from out [OF this] o n(2) show ?thesis by blast
    qed
  qed
qed

lemma nodes_in_replace:
  assumes C: "cover fl (pre @ old @ post)" and so: "sizes_ok (pre @ old @ post)"
    and S: "sum_list (map fst new) = sum_list (map fst old)"
    and F: "\<forall>j<11. set (fl' ! j) = set (fl ! j) - fst ` set (layout (heap_end pre) old)"
  shows "nodes_in fl' (pre @ new @ post)"
  unfolding nodes_in_def
proof (intro allI impI ballI)
  fix j y assume j: "j < 11" and y: "y \<in> set (fl' ! j)"
  let ?X = "heap_end pre" and ?S = "sum_list (map fst old)"
  have "y \<in> set (fl ! j)" "y \<notin> fst ` set (layout ?X old)" using F j y by auto
  then obtain n where n: "(y, n, False) \<in> set (layout 96 (pre @ old @ post))" "class_of n = j"
    "(y, n, False) \<notin> set (layout ?X old)"
    using C j by (force simp add: cover_def)
  then have "(y, n, False) \<in> set (layout 96 (pre @ new @ post))"
    unfolding layout_mid S by blast
  then show "\<exists>n a. (y, n, a) \<in> set (layout 96 (pre @ new @ post)) \<and> class_of n = j"
    using n(2) by blast
qed

section \<open>The neighbours of a block\<close>

lemma block_tag:
  assumes T: "tags_ok s bs" and b: "(y, n, a) \<in> set (layout 96 bs)"
  shows "GET (mem s) (off (heap_listp s) (y - 4)) = tag n a"
    "GET (mem s) (off (heap_listp s) (y + n - 8)) = tag n a"
    "16 \<le> n" "8 dvd n" "n < 2 ^ 32" "96 \<le> y" "y + n \<le> heap_end bs" "0 \<le> n"
proof -
  have A: "arena_ok (heap_listp s) bs" using T by (rule arena_ok_tags)
  then have so: "sizes_ok bs" and he: "heap_end bs < 2 ^ 32" by (simp_all add: arena_ok_def)
  show "GET (mem s) (off (heap_listp s) (y - 4)) = tag n a"
    "GET (mem s) (off (heap_listp s) (y + n - 8)) = tag n a"
    using T b unfolding tags_ok_iff by force+
  show r: "16 \<le> n" "8 dvd n" "96 \<le> y" "y + n \<le> heap_end bs"
    using layout_range [OF so b] by (simp_all add: heap_end_def)
  show "n < 2 ^ 32" "0 \<le> n" using r he by simp_all
qed

lemma prev_tag:
  assumes T: "tags_ok s (pre @ rest)"
  shows "\<exists>np ap. GET (mem s) (off (heap_listp s) (heap_end pre - 8)) = tag np ap \<and>
      GET (mem s) (off (heap_listp s) (heap_end pre - np - 4)) = tag np ap \<and>
      8 dvd np \<and> 16 \<le> np \<and> np < 2 ^ 32 \<and> ap = (pre = [] \<or> snd (last pre)) \<and>
      (pre \<noteq> [] \<longrightarrow> np = fst (last pre))"
proof (cases pre rule: rev_cases)
  case Nil
  have "GET (mem s) (off (heap_listp s) (- 4)) = 97" "GET (mem s) (off (heap_listp s) 88) = 97"
    using T by (simp_all add: tags_ok_def)
  then have "GET (mem s) (off (heap_listp s) (heap_end pre - 8)) = tag 96 True \<and>
      GET (mem s) (off (heap_listp s) (heap_end pre - 96 - 4)) = tag 96 True"
    using Nil by (simp add: heap_end_def tag_97)
  then show ?thesis using Nil by (intro exI [of _ 96] exI [of _ True]) simp
next
  case (snoc pre' b)
  obtain np ap where b: "b = (np, ap)" by (cases b) auto
  have "(heap_end pre', np, ap) \<in> set (layout 96 (pre' @ [(np, ap)] @ rest))"
    unfolding layout_mid by simp
  then have i: "(heap_end pre', np, ap) \<in> set (layout 96 (pre @ rest))" using snoc b by simp
  have e: "heap_end pre = heap_end pre' + np" using snoc b by (simp add: heap_end_def)
  from block_tag [OF T i]
  have "GET (mem s) (off (heap_listp s) (heap_end pre - 8)) = tag np ap \<and>
      GET (mem s) (off (heap_listp s) (heap_end pre - np - 4)) = tag np ap \<and>
      8 dvd np \<and> 16 \<le> np \<and> np < 2 ^ 32"
    unfolding e by (simp add: algebra_simps)
  then show ?thesis using snoc b by (intro exI [of _ np] exI [of _ ap]) simp
qed

lemma next_tag:
  assumes T: "tags_ok s (pre @ (n, a) # post)"
  shows "\<exists>nn an. GET (mem s) (off (heap_listp s) (heap_end pre + n - 4)) = tag nn an \<and>
      8 dvd nn \<and> an = (post = [] \<or> snd (hd post))"
proof (cases post)
  case Nil
  have "GET (mem s) (off (heap_listp s) (heap_end (pre @ [(n, a)]) - 4)) = 1"
    using T Nil unfolding tags_ok_iff by simp
  then have "GET (mem s) (off (heap_listp s) (heap_end pre + n - 4)) = tag 0 True"
    by (simp add: heap_end_def tag_1)
  then show ?thesis using Nil by (intro exI [of _ 0] exI [of _ True]) simp
next
  case (Cons b post')
  obtain nn an where b: "b = (nn, an)" by (cases b) auto
  have "(heap_end (pre @ [(n, a)]), nn, an) \<in> set (layout 96 ((pre @ [(n, a)]) @ [(nn, an)] @ post'))"
    unfolding layout_mid by simp
  then have i: "(heap_end pre + n, nn, an) \<in> set (layout 96 (pre @ (n, a) # post))"
    using Cons b by (simp add: heap_end_def add.assoc)
  from block_tag(1,4) [OF T i] show ?thesis
    using Cons b by (intro exI [of _ nn] exI [of _ an]) simp
qed

lemma prev_alloc_read:
  assumes "GET m (off B (x - 8)) = tag np ap" "GET m (off B (x - np - 4)) = tag np ap"
    "8 dvd np" "0 \<le> np" "np < 2 ^ 32"
  shows "PREV_BLKP m (off B x) = off B (x - np)"
    "GET_ALLOC m (FTRP m (PREV_BLKP m (off B x))) = (if ap then 1 else 0)"
proof -
  show p: "PREV_BLKP m (off B x) = off B (x - np)" using ftr_reads [OF assms(1,3,4,5)] .
  have "FTRP m (off B (x - np)) = off B (x - 8)"
    using hdr_reads(2) [OF assms(2,3,4,5)] by simp
  then show "GET_ALLOC m (FTRP m (PREV_BLKP m (off B x))) = (if ap then 1 else 0)"
    using GET_ALLOC_tag [OF assms(1,3)] p by simp
qed

lemma next_alloc_read:
  assumes "GET m (off B (x - 4)) = tag n a" "8 dvd n" "0 \<le> n" "n < 2 ^ 32"
    "GET m (off B (x + n - 4)) = tag nn an" "8 dvd nn"
  shows "GET_ALLOC m (HDRP (NEXT_BLKP m (off B x))) = (if an then 1 else 0)"
  using hdr_reads(1) [OF assms(1-4)] GET_ALLOC_tag [OF assms(5,6)] by (simp add: HDRP_off)

lemma mid_block:
  "(heap_end pre, n, a) \<in> set (layout 96 (pre @ (n, a) # post))"
  using layout_mid [of pre "[(n, a)]" post] by simp

section \<open>Coalescing\<close>

lemma coalesce_none:
  assumes T: "tags_ok s (pre @ (n, False) # post)"
    and pa: "pre = [] \<or> snd (last pre)" and na: "post = [] \<or> snd (hd post)"
  shows "coalesce s (off (heap_listp s) (heap_end pre)) = Some (s, off (heap_listp s) (heap_end pre))"
proof -
  let ?B = "heap_listp s" and ?X = "heap_end pre"
  obtain np ap where p: "GET (mem s) (off ?B (?X - 8)) = tag np ap"
    "GET (mem s) (off ?B (?X - np - 4)) = tag np ap" "8 dvd np" "16 \<le> np" "np < 2 ^ 32" "ap"
    using prev_tag [OF T] pa by blast
  obtain nn an where x: "GET (mem s) (off ?B (?X + n - 4)) = tag nn an" "8 dvd nn" "an"
    using next_tag [OF T] na by blast
  note o = block_tag [OF T mid_block]
  have "GET_ALLOC (mem s) (FTRP (mem s) (PREV_BLKP (mem s) (off ?B ?X))) = 1"
    using prev_alloc_read(2) [OF p(1,2,3) _ p(5)] p(4,6) by simp
  moreover have "GET_ALLOC (mem s) (HDRP (NEXT_BLKP (mem s) (off ?B ?X))) = 1"
    using next_alloc_read [OF o(1,4,8,5) x(1,2)] x(3) by simp
  ultimately show ?thesis by (simp add: coalesce_def)
qed

lemma arena_replace:
  assumes "arena_ok B (pre @ old @ post)" "sizes_ok new"
    "sum_list (map fst new) = sum_list (map fst old)"
  shows "arena_ok B (pre @ new @ post)"
  using assms by (simp add: arena_ok_def heap_end_def sizes_ok_simps)

lemma cover_member:
  assumes "cover fl bs" "(y, n, False) \<in> set (layout 96 bs)"
  shows "y \<in> set (fl ! class_of n)"
  using assms class_of_less [of n] unfolding cover_def by blast

lemma coalesce_next:
  assumes T: "tags_ok s (pre @ [(n, False), (n2, False)] @ post)" and L: "links_ok s fl"
    and C: "cover fl (pre @ [(n, False), (n2, False)] @ post)"
    and pa: "pre = [] \<or> snd (last pre)"
  shows "\<exists>s' fl'. coalesce s (off (heap_listp s) (heap_end pre)) =
             Some (s', off (heap_listp s) (heap_end pre)) \<and>
           tags_ok s' (pre @ [(n + n2, False)] @ post) \<and> links_ok s' fl' \<and>
           cover fl' (pre @ [(n + n2, False)] @ post) \<and>
           heap_listp s' = heap_listp s \<and> mem_max_addr s' = mem_max_addr s"
proof -
  let ?B = "heap_listp s" and ?X = "heap_end pre"
  let ?old = "[(n, False), (n2, False)]" and ?new = "[(n + n2, False)]"
  let ?bs = "pre @ ?old @ post" and ?bs' = "pre @ ?new @ post"
  have A: "arena_ok ?B ?bs" using T by (rule arena_ok_tags)
  have N: "nodes_in fl ?bs" using C by (rule cover_nodes_in)
  have so: "sizes_ok ?bs" using A by (simp add: arena_ok_def)
  have b1: "(?X, n, False) \<in> set (layout 96 ?bs)" and b2: "(?X + n, n2, False) \<in> set (layout 96 ?bs)"
    unfolding layout_mid by simp_all
  note o1 = block_tag [OF T b1] and o2 = block_tag [OF T b2]
  have son: "sizes_ok ?new" using o1(3,4) o2(3,4) by (simp add: sizes_ok_def)
  have S: "sum_list (map fst ?new) = sum_list (map fst ?old)" by simp
  have A': "arena_ok ?B ?bs'" using arena_replace [OF A son S] .
  have b': "(?X, n + n2, False) \<in> set (layout 96 ?bs')" unfolding layout_mid by simp
  have he: "heap_end ?bs < 2 ^ 32" using A by (simp add: arena_ok_def)
  have n32: "n + n2 < 2 ^ 32" using o2(7) o1(6) he by simp
  text \<open>the neighbours\<close>
  obtain np ap where p: "GET (mem s) (off ?B (?X - 8)) = tag np ap"
    "GET (mem s) (off ?B (?X - np - 4)) = tag np ap" "8 dvd np" "16 \<le> np" "np < 2 ^ 32" "ap"
    using prev_tag [OF T] pa by blast
  have pav: "GET_ALLOC (mem s) (FTRP (mem s) (PREV_BLKP (mem s) (off ?B ?X))) = 1"
    using prev_alloc_read(2) [OF p(1,2,3) _ p(5)] p(4,6) by simp
  have nav: "GET_ALLOC (mem s) (HDRP (NEXT_BLKP (mem s) (off ?B ?X))) = 0"
    using next_alloc_read [OF o1(1,4,8,5) o2(1,4)] by simp
  have nx: "NEXT_BLKP (mem s) (off ?B ?X) = off ?B (?X + n)"
    using hdr_reads(1) [OF o1(1,4,8,5)] .
  have nav': "GET_ALLOC (mem s) (off ?B (?X + n - 4)) = 0" using nav nx by (simp add: HDRP_off)
  have sz1: "block_size s (off ?B ?X) = word_of_int n" using block_size_tag [OF o1(1,4,8,5)] .
  have sz2: "block_size s (off ?B (?X + n)) = word_of_int n2"
    using block_size_tag [OF o2(1,4,8,5)] .
  text \<open>the two removals\<close>
  have k1: "?X \<in> set (fl ! class_of n)" using cover_member [OF C b1] .
  have k2: "?X + n \<in> set (fl ! class_of n2)" using cover_member [OF C b2] .
  define fl1 where "fl1 = fl[class_of n := remove1 ?X (fl ! class_of n)]"
  obtain s1 where s1: "remove_frome_free_list s (off ?B ?X) = Some s1"
    "heap_listp s1 = ?B" "mem_brk s1 = mem_brk s" "mem_max_addr s1 = mem_max_addr s"
    "links_ok s1 fl1" "nodes_in fl1 ?bs" "\<forall>j<11. set (fl1 ! j) = set (fl ! j) - {?X}"
    "\<forall>c. c \<in> tcells 96 ?bs \<or> c = - 4 \<or> c = 88 \<longrightarrow>
         GET (mem s1) (off ?B c) = GET (mem s) (off ?B c)"
    using remove_stepB [OF refl A N L class_of_less k1 o1(1) b1] unfolding fl1_def by blast
  have h11: "GET (mem s1) (off ?B (?X - 4)) = tag n False"
    using s1(8) tcells_block [OF b1] o1(1) by simp
  have h12: "GET (mem s1) (off ?B (?X + n - 4)) = tag n2 False"
    using s1(8) tcells_block [OF b2] o2(1) by simp
  have nx1: "NEXT_BLKP (mem s1) (off ?B ?X) = off ?B (?X + n)"
    using hdr_reads(1) [OF h11 o1(4,8,5)] .
  have k2': "?X + n \<in> set (fl1 ! class_of n2)"
    using s1(7) class_of_less [of n2] k2 o1(3) by simp
  define fl2 where "fl2 = fl1[class_of n2 := remove1 (?X + n) (fl1 ! class_of n2)]"
  obtain s2 where s2: "remove_frome_free_list s1 (off ?B (?X + n)) = Some s2"
    "heap_listp s2 = ?B" "mem_brk s2 = mem_brk s1" "mem_max_addr s2 = mem_max_addr s1"
    "links_ok s2 fl2" "nodes_in fl2 ?bs" "\<forall>j<11. set (fl2 ! j) = set (fl1 ! j) - {?X + n}"
    "\<forall>c. c \<in> tcells 96 ?bs \<or> c = - 4 \<or> c = 88 \<longrightarrow>
         GET (mem s2) (off ?B c) = GET (mem s1) (off ?B c)"
    using remove_stepB [OF s1(2) A s1(6,5) class_of_less k2' h12 b2] unfolding fl2_def by blast
  have F2: "\<forall>j<11. set (fl2 ! j) = set (fl ! j) - fst ` set (layout ?X ?old)"
    using s1(7) s2(7) by auto
  have N2: "nodes_in fl2 ?bs'" using nodes_in_replace [OF C so S F2] .
  text \<open>the two tags\<close>
  have c1: "?X - 4 \<in> tcells 96 ?bs'" and c2: "?X + (n + n2) - 8 \<in> tcells 96 ?bs'"
    using tcells_block [OF b'] by simp_all
  define s3 where "s3 = put_tag s2 (off ?B (?X - 4)) (PACK (word_of_int n + word_of_int n2) 0)"
  have s3: "heap_listp s3 = ?B" "mem_brk s3 = mem_brk s2" "mem_max_addr s3 = mem_max_addr s2"
    "links_ok s3 fl2"
    "\<forall>t. cell_ok t \<longrightarrow> GET (mem s3) (off ?B t) =
        (if t = ?X - 4 then tag (n + n2) False else GET (mem s2) (off ?B t))"
    using tag_stepB [OF s2(2) A' N2 s2(5) c1 s3_def] by (simp_all add: ucast_sum_tag)
  have ok1: "cell_ok (?X - 4)" "cell_ok (?X + (n + n2) - 8)"
    using tcells_not_lcells [OF A' N2] c1 c2 by blast+
  have h3: "GET (mem s3) (off ?B (?X - 4)) = tag (n + n2) False" using s3(5) ok1 by simp
  have ft3: "FTRP (mem s3) (off ?B ?X) = off ?B (?X + (n + n2) - 8)"
    using hdr_reads(2) [OF h3 _ _ n32] o1(4,8) o2(4,8) by simp
  define s4 where "s4 = put_tag s3 (off ?B (?X + (n + n2) - 8)) (PACK (word_of_int n + word_of_int n2) 0)"
  have s4: "heap_listp s4 = ?B" "mem_brk s4 = mem_brk s3" "mem_max_addr s4 = mem_max_addr s3"
    "links_ok s4 fl2"
    "\<forall>t. cell_ok t \<longrightarrow> GET (mem s4) (off ?B t) =
        (if t = ?X + (n + n2) - 8 then tag (n + n2) False else GET (mem s3) (off ?B t))"
    using tag_stepB [OF s3(1) A' N2 s3(4) c2 s4_def] by (simp_all add: ucast_sum_tag)
  have h4: "GET (mem s4) (off ?B (?X - 4)) = tag (n + n2) False"
    using s4(5) ok1 h3 o1(3) o2(3) by simp
  have f4: "GET (mem s4) (off ?B (?X + (n + n2) - 8)) = tag (n + n2) False"
    using s4(5) ok1 by simp
  text \<open>the insertion of the merged block\<close>
  have fresh: "\<forall>j<11. ?X \<notin> set (fl2 ! j)" using F2 by simp
  define fl3 where "fl3 = fl2[class_of (n + n2) := fl2 ! class_of (n + n2) @ [?X]]"
  define s5 where "s5 = add_to_free_list s4 (off ?B ?X)"
  have s5: "heap_listp s5 = ?B" "mem_brk s5 = mem_brk s4" "mem_max_addr s5 = mem_max_addr s4"
    "links_ok s5 fl3" "nodes_in fl3 ?bs'"
    "\<forall>j<11. set (fl3 ! j) = set (fl2 ! j) \<union> (if j = class_of (n + n2) then {?X} else {})"
    "\<forall>c. c \<in> tcells 96 ?bs' \<or> c = - 4 \<or> c = 88 \<longrightarrow>
         GET (mem s5) (off ?B c) = GET (mem s4) (off ?B c)"
    using add_stepB [OF s4(1) A' N2 s4(4) b' fresh h4 s5_def] unfolding fl3_def by blast+
  text \<open>the result\<close>
  have res: "coalesce s (off ?B ?X) = Some (s5, off ?B ?X)"
    unfolding coalesce_def
    by (simp add: pav nav' Let_def nx sz1 sz2 s1(1) nx1 s2(1) HDRP_off ft3 [unfolded s3_def]
        s5_def s4_def s3_def)
  have tags: "tags_ok s5 ?bs'"
  proof (rule retag [OF T S son])
    show "heap_listp s5 = ?B" by (rule s5(1))
    show "mem_brk s5 = mem_brk s" using s5(2) s4(2) s3(2) s2(3) s1(3) by simp
    show "\<forall>e\<in>set (layout ?X ?new).
        GET (mem s5) (off ?B (fst e - 4)) = tag (fst (snd e)) (snd (snd e)) \<and>
        GET (mem s5) (off ?B (fst e + fst (snd e) - 8)) = tag (fst (snd e)) (snd (snd e))"
      using s5(7) c1 c2 h4 f4 by simp
    show "\<forall>c. (c \<in> tcells 96 ?bs \<or> c = - 4 \<or> c = 88) \<and>
        (c \<in> tcells 96 ?bs' \<or> c = - 4 \<or> c = 88) \<and>
        (c < ?X - 4 \<or> ?X + sum_list (map fst ?old) - 8 < c) \<longrightarrow>
        GET (mem s5) (off ?B c) = GET (mem s) (off ?B c)"
    proof (intro allI impI)
      fix c
      assume c: "(c \<in> tcells 96 ?bs \<or> c = - 4 \<or> c = 88) \<and>
        (c \<in> tcells 96 ?bs' \<or> c = - 4 \<or> c = 88) \<and>
        (c < ?X - 4 \<or> ?X + sum_list (map fst ?old) - 8 < c)"
      then have ok: "cell_ok c" using tcells_not_lcells [OF A N, of c] by blast
      have ne: "c \<noteq> ?X - 4" "c \<noteq> ?X + (n + n2) - 8" using c o1(3) o2(3) by auto
      have "GET (mem s5) (off ?B c) = GET (mem s4) (off ?B c)" using s5(7) c by blast
      also have "\<dots> = GET (mem s3) (off ?B c)" using s4(5) ok ne by simp
      also have "\<dots> = GET (mem s2) (off ?B c)" using s3(5) ok ne by simp
      also have "\<dots> = GET (mem s1) (off ?B c)" using s2(8) c by blast
      also have "\<dots> = GET (mem s) (off ?B c)" using s1(8) c by blast
      finally show "GET (mem s5) (off ?B c) = GET (mem s) (off ?B c)" .
    qed
  qed
  have cov: "cover fl3 ?bs'"
  proof (rule cover_replace [OF C so son S])
    show "\<forall>j<11. set (fl3 ! j) =
        (set (fl ! j) - fst ` set (layout ?X ?old)) \<union>
        {y. \<exists>m. (y, m, False) \<in> set (layout ?X ?new) \<and> class_of m = j}"
      using s5(6) F2 by auto
  qed
  show ?thesis
    using res tags s5(4) cov s5(1) s5(3) s4(3) s3(3) s2(4) s1(4) by (intro exI [of _ s5] exI [of _ fl3]) simp
qed

lemma coalesce_prev:
  assumes T: "tags_ok s (pre @ [(np, False), (n, False)] @ post)" and L: "links_ok s fl"
    and C: "cover fl (pre @ [(np, False), (n, False)] @ post)"
    and na: "post = [] \<or> snd (hd post)"
  shows "\<exists>s' fl'. coalesce s (off (heap_listp s) (heap_end pre + np)) =
             Some (s', off (heap_listp s) (heap_end pre)) \<and>
           tags_ok s' (pre @ [(np + n, False)] @ post) \<and> links_ok s' fl' \<and>
           cover fl' (pre @ [(np + n, False)] @ post) \<and>
           heap_listp s' = heap_listp s \<and> mem_max_addr s' = mem_max_addr s"
proof -
  let ?B = "heap_listp s" and ?X = "heap_end pre" and ?Y = "heap_end pre + np"
  let ?old = "[(np, False), (n, False)]" and ?new = "[(np + n, False)]"
  let ?bs = "pre @ ?old @ post" and ?bs' = "pre @ ?new @ post"
  let ?v = "PACK (word_of_int n + word_of_int np) 0"
  have A: "arena_ok ?B ?bs" using T by (rule arena_ok_tags)
  have N: "nodes_in fl ?bs" using C by (rule cover_nodes_in)
  have so: "sizes_ok ?bs" using A by (simp add: arena_ok_def)
  have b1: "(?X, np, False) \<in> set (layout 96 ?bs)" and b2: "(?Y, n, False) \<in> set (layout 96 ?bs)"
    unfolding layout_mid by simp_all
  note o1 = block_tag [OF T b1] and o2 = block_tag [OF T b2]
  have son: "sizes_ok ?new" using o1(3,4) o2(3,4) by (simp add: sizes_ok_def)
  have S: "sum_list (map fst ?new) = sum_list (map fst ?old)" by simp
  have A': "arena_ok ?B ?bs'" using arena_replace [OF A son S] .
  have b': "(?X, np + n, False) \<in> set (layout 96 ?bs')" unfolding layout_mid by simp
  have he: "heap_end ?bs < 2 ^ 32" using A by (simp add: arena_ok_def)
  have n32: "np + n < 2 ^ 32" using o2(7) o1(6) he by simp
  have uv: "(ucast ?v :: 32 word) = tag (np + n) False"
    using ucast_PACK(2) [of "np + n"] by (simp add: add.commute)
  have cells: "?X - 4 \<in> tcells 96 ?bs" "?Y - 8 \<in> tcells 96 ?bs" "?Y - 4 \<in> tcells 96 ?bs"
    "?Y + n - 8 \<in> tcells 96 ?bs"
    using tcells_block [OF b1] tcells_block [OF b2] by simp_all
  have ok: "cell_ok (?X - 4)" "cell_ok (?Y - 8)" "cell_ok (?Y - 4)" "cell_ok (?Y + n - 8)"
    using tcells_not_lcells [OF A N] cells by blast+
  text \<open>the neighbours\<close>
  have pf: "GET (mem s) (off ?B (?Y - 8)) = tag np False"
    "GET (mem s) (off ?B (?Y - np - 4)) = tag np False"
    using o1(1,2) by simp_all
  have pav: "GET_ALLOC (mem s) (FTRP (mem s) (PREV_BLKP (mem s) (off ?B ?Y))) = 0"
    using prev_alloc_read(2) [OF pf o1(4,8,5)] by simp
  have pv: "PREV_BLKP (mem s) (off ?B ?Y) = off ?B ?X"
    using prev_alloc_read(1) [OF pf o1(4,8,5)] by simp
  have T2: "tags_ok s ((pre @ [(np, False)]) @ (n, False) # post)" using T by simp
  obtain nn an where x: "GET (mem s) (off ?B (?Y + n - 4)) = tag nn an" "8 dvd nn" "an"
    using next_tag [OF T2] na by (auto simp add: heap_end_def)
  have nav: "GET_ALLOC (mem s) (HDRP (NEXT_BLKP (mem s) (off ?B ?Y))) = 1"
    using next_alloc_read [OF o2(1,4,8,5) x(1,2)] x(3) by simp
  have sz1: "block_size s (off ?B ?X) = word_of_int np" using block_size_tag [OF o1(1,4,8,5)] .
  have sz2: "block_size s (off ?B ?Y) = word_of_int n" using block_size_tag [OF o2(1,4,8,5)] .
  text \<open>the block before is removed\<close>
  have k1: "?X \<in> set (fl ! class_of np)" using cover_member [OF C b1] .
  have k2: "?Y \<in> set (fl ! class_of n)" using cover_member [OF C b2] .
  define fl1 where "fl1 = fl[class_of np := remove1 ?X (fl ! class_of np)]"
  obtain s1 where s1: "remove_frome_free_list s (off ?B ?X) = Some s1"
    "heap_listp s1 = ?B" "mem_brk s1 = mem_brk s" "mem_max_addr s1 = mem_max_addr s"
    "links_ok s1 fl1" "nodes_in fl1 ?bs" "\<forall>j<11. set (fl1 ! j) = set (fl ! j) - {?X}"
    "\<forall>c. c \<in> tcells 96 ?bs \<or> c = - 4 \<or> c = 88 \<longrightarrow>
         GET (mem s1) (off ?B c) = GET (mem s) (off ?B c)"
    using remove_stepB [OF refl A N L class_of_less k1 o1(1) b1] unfolding fl1_def by blast
  have h1: "GET (mem s1) (off ?B (?Y - 4)) = tag n False"
    using s1(8) cells o2(1) by simp
  have ft1: "FTRP (mem s1) (off ?B ?Y) = off ?B (?Y + n - 8)"
    using hdr_reads(2) [OF h1 o2(4,8,5)] .
  text \<open>the two tags\<close>
  define s2 where "s2 = put_tag s1 (off ?B (?Y + n - 8)) ?v"
  have s2: "heap_listp s2 = ?B" "mem_brk s2 = mem_brk s1" "mem_max_addr s2 = mem_max_addr s1"
    "links_ok s2 fl1"
    "\<forall>t. cell_ok t \<longrightarrow> GET (mem s2) (off ?B t) =
        (if t = ?Y + n - 8 then tag (np + n) False else GET (mem s1) (off ?B t))"
    using tag_stepB [OF s1(2) A s1(6,5) cells(4) s2_def] by (simp_all add: uv)
  have f2: "GET (mem s2) (off ?B (?Y - 8)) = tag np False"
    using s2(5) ok s1(8) cells pf(1) o2(3) by simp
  have pv2: "PREV_BLKP (mem s2) (off ?B ?Y) = off ?B ?X"
    using ftr_reads [OF f2 o1(4,8,5)] by simp
  define s3 where "s3 = put_tag s2 (off ?B (?X - 4)) ?v"
  have s3: "heap_listp s3 = ?B" "mem_brk s3 = mem_brk s2" "mem_max_addr s3 = mem_max_addr s2"
    "links_ok s3 fl1"
    "\<forall>t. cell_ok t \<longrightarrow> GET (mem s3) (off ?B t) =
        (if t = ?X - 4 then tag (np + n) False else GET (mem s2) (off ?B t))"
    using tag_stepB [OF s2(1) A s1(6) s2(4) cells(1) s3_def] by (simp_all add: uv)
  have h3: "GET (mem s3) (off ?B (?Y - 4)) = tag n False"
    using s3(5) s2(5) ok h1 o1(3) o2(3) by simp
  text \<open>the block itself is removed\<close>
  have k2': "?Y \<in> set (fl1 ! class_of n)"
    using s1(7) class_of_less [of n] k2 o1(3) by simp
  define fl2 where "fl2 = fl1[class_of n := remove1 ?Y (fl1 ! class_of n)]"
  obtain s4 where s4: "remove_frome_free_list s3 (off ?B ?Y) = Some s4"
    "heap_listp s4 = ?B" "mem_brk s4 = mem_brk s3" "mem_max_addr s4 = mem_max_addr s3"
    "links_ok s4 fl2" "nodes_in fl2 ?bs" "\<forall>j<11. set (fl2 ! j) = set (fl1 ! j) - {?Y}"
    "\<forall>c. c \<in> tcells 96 ?bs \<or> c = - 4 \<or> c = 88 \<longrightarrow>
         GET (mem s4) (off ?B c) = GET (mem s3) (off ?B c)"
    using remove_stepB [OF s3(1) A s1(6) s3(4) class_of_less k2' h3 b2] unfolding fl2_def
    by blast
  have f4: "GET (mem s4) (off ?B (?Y - 8)) = tag np False"
    using s4(8) cells s3(5) ok f2 o1(3) by simp
  have pv4: "PREV_BLKP (mem s4) (off ?B ?Y) = off ?B ?X"
    using ftr_reads [OF f4 o1(4,8,5)] by simp
  have h4: "GET (mem s4) (off ?B (?X - 4)) = tag (np + n) False"
    using s4(8) cells s3(5) ok by simp
  have g4: "GET (mem s4) (off ?B (?Y + n - 8)) = tag (np + n) False"
    using s4(8) cells s3(5) s2(5) ok o1(3) o2(3) by simp
  text \<open>the insertion of the merged block\<close>
  have F2: "\<forall>j<11. set (fl2 ! j) = set (fl ! j) - fst ` set (layout ?X ?old)"
    using s1(7) s4(7) by auto
  have N2: "nodes_in fl2 ?bs'" using nodes_in_replace [OF C so S F2] .
  have fresh: "\<forall>j<11. ?X \<notin> set (fl2 ! j)" using F2 by simp
  define fl3 where "fl3 = fl2[class_of (np + n) := fl2 ! class_of (np + n) @ [?X]]"
  define s5 where "s5 = add_to_free_list s4 (off ?B ?X)"
  have s5: "heap_listp s5 = ?B" "mem_brk s5 = mem_brk s4" "mem_max_addr s5 = mem_max_addr s4"
    "links_ok s5 fl3" "nodes_in fl3 ?bs'"
    "\<forall>j<11. set (fl3 ! j) = set (fl2 ! j) \<union> (if j = class_of (np + n) then {?X} else {})"
    "\<forall>c. c \<in> tcells 96 ?bs' \<or> c = - 4 \<or> c = 88 \<longrightarrow>
         GET (mem s5) (off ?B c) = GET (mem s4) (off ?B c)"
    using add_stepB [OF s4(2) A' N2 s4(5) b' fresh h4 s5_def] unfolding fl3_def by blast+
  text \<open>the result\<close>
  have nx: "NEXT_BLKP (mem s) (off ?B ?Y) = off ?B (?Y + n)"
    using hdr_reads(1) [OF o2(1,4,8,5)] .
  have nav': "GET_ALLOC (mem s) (off ?B (?Y + n - 4)) = 1" using nav nx by (simp add: HDRP_off)
  have pav': "GET_ALLOC (mem s) (FTRP (mem s) (off ?B ?X)) = 0" using pav pv by simp
  have res: "coalesce s (off ?B ?Y) = Some (s5, off ?B ?X)"
    unfolding coalesce_def
    by (simp add: pav' nav' Let_def nx pv sz1 sz2 s1(1) ft1 pv2 [unfolded s2_def] HDRP_off
        s4(1) [unfolded s3_def s2_def] pv4 s5_def)
  have c': "?X - 4 \<in> tcells 96 ?bs'" "?X + (np + n) - 8 \<in> tcells 96 ?bs'"
    using tcells_block [OF b'] by simp_all
  have tags: "tags_ok s5 ?bs'"
  proof (rule retag [OF T S son])
    show "heap_listp s5 = ?B" by (rule s5(1))
    show "mem_brk s5 = mem_brk s" using s5(2) s4(3) s3(2) s2(2) s1(3) by simp
    show "\<forall>e\<in>set (layout ?X ?new).
        GET (mem s5) (off ?B (fst e - 4)) = tag (fst (snd e)) (snd (snd e)) \<and>
        GET (mem s5) (off ?B (fst e + fst (snd e) - 8)) = tag (fst (snd e)) (snd (snd e))"
      using s5(7) c' h4 g4 by (simp add: add.assoc)
    show "\<forall>c. (c \<in> tcells 96 ?bs \<or> c = - 4 \<or> c = 88) \<and>
        (c \<in> tcells 96 ?bs' \<or> c = - 4 \<or> c = 88) \<and>
        (c < ?X - 4 \<or> ?X + sum_list (map fst ?old) - 8 < c) \<longrightarrow>
        GET (mem s5) (off ?B c) = GET (mem s) (off ?B c)"
    proof (intro allI impI)
      fix c
      assume c: "(c \<in> tcells 96 ?bs \<or> c = - 4 \<or> c = 88) \<and>
        (c \<in> tcells 96 ?bs' \<or> c = - 4 \<or> c = 88) \<and>
        (c < ?X - 4 \<or> ?X + sum_list (map fst ?old) - 8 < c)"
      then have okc: "cell_ok c" using tcells_not_lcells [OF A N, of c] by blast
      have ne: "c \<noteq> ?X - 4" "c \<noteq> ?Y + n - 8" using c o1(3) o2(3) by auto
      have "GET (mem s5) (off ?B c) = GET (mem s4) (off ?B c)" using s5(7) c by blast
      also have "\<dots> = GET (mem s3) (off ?B c)" using s4(8) c by blast
      also have "\<dots> = GET (mem s2) (off ?B c)" using s3(5) okc ne by simp
      also have "\<dots> = GET (mem s1) (off ?B c)" using s2(5) okc ne by simp
      also have "\<dots> = GET (mem s) (off ?B c)" using s1(8) c by blast
      finally show "GET (mem s5) (off ?B c) = GET (mem s) (off ?B c)" .
    qed
  qed
  have cov: "cover fl3 ?bs'"
  proof (rule cover_replace [OF C so son S])
    show "\<forall>j<11. set (fl3 ! j) =
        (set (fl ! j) - fst ` set (layout ?X ?old)) \<union>
        {y. \<exists>m. (y, m, False) \<in> set (layout ?X ?new) \<and> class_of m = j}"
      using s5(6) F2 by auto
  qed
  show ?thesis
    using res tags s5(4) cov s5(1) s5(3) s4(4) s3(3) s2(3) s1(4)
    by (intro exI [of _ s5] exI [of _ fl3]) simp
qed

lemma coalesce_both:
  assumes T: "tags_ok s (pre @ [(np, False), (n, False), (n2, False)] @ post)"
    and L: "links_ok s fl"
    and C: "cover fl (pre @ [(np, False), (n, False), (n2, False)] @ post)"
  shows "\<exists>s' fl'. coalesce s (off (heap_listp s) (heap_end pre + np)) =
             Some (s', off (heap_listp s) (heap_end pre)) \<and>
           tags_ok s' (pre @ [(np + n + n2, False)] @ post) \<and> links_ok s' fl' \<and>
           cover fl' (pre @ [(np + n + n2, False)] @ post) \<and>
           heap_listp s' = heap_listp s \<and> mem_max_addr s' = mem_max_addr s"
proof -
  let ?B = "heap_listp s" and ?X = "heap_end pre" and ?Y = "heap_end pre + np"
    and ?Z = "heap_end pre + np + n"
  let ?old = "[(np, False), (n, False), (n2, False)]" and ?new = "[(np + n + n2, False)]"
  let ?bs = "pre @ ?old @ post" and ?bs' = "pre @ ?new @ post"
  let ?v = "PACK (word_of_int n + (word_of_int np + word_of_int n2)) 0"
  have A: "arena_ok ?B ?bs" using T by (rule arena_ok_tags)
  have N: "nodes_in fl ?bs" using C by (rule cover_nodes_in)
  have so: "sizes_ok ?bs" using A by (simp add: arena_ok_def)
  have b1: "(?X, np, False) \<in> set (layout 96 ?bs)" and b2: "(?Y, n, False) \<in> set (layout 96 ?bs)"
    and b3: "(?Z, n2, False) \<in> set (layout 96 ?bs)"
    unfolding layout_mid by simp_all
  note o1 = block_tag [OF T b1] and o2 = block_tag [OF T b2] and o3 = block_tag [OF T b3]
  have son: "sizes_ok ?new" using o1(3,4) o2(3,4) o3(3,4) by (simp add: sizes_ok_def)
  have S: "sum_list (map fst ?new) = sum_list (map fst ?old)" by simp
  have A': "arena_ok ?B ?bs'" using arena_replace [OF A son S] .
  have b': "(?X, np + n + n2, False) \<in> set (layout 96 ?bs')" unfolding layout_mid by simp
  have he: "heap_end ?bs < 2 ^ 32" using A by (simp add: arena_ok_def)
  have n32: "np + n + n2 < 2 ^ 32" "np + n2 < 2 ^ 32" using o3(7) o1(6) o2(3) he by simp_all
  have uv: "(ucast ?v :: 32 word) = tag (np + n + n2) False"
    using ucast_PACK(2) [of "np + n + n2"] by (simp add: add.commute add.left_commute)
  have cells: "?X - 4 \<in> tcells 96 ?bs" "?Y - 8 \<in> tcells 96 ?bs" "?Y - 4 \<in> tcells 96 ?bs"
    "?Z - 4 \<in> tcells 96 ?bs" "?Z + n2 - 8 \<in> tcells 96 ?bs"
    using tcells_block [OF b1] tcells_block [OF b2] tcells_block [OF b3] by simp_all
  have ok: "cell_ok (?X - 4)" "cell_ok (?Y - 8)" "cell_ok (?Y - 4)" "cell_ok (?Z - 4)"
    "cell_ok (?Z + n2 - 8)"
    using tcells_not_lcells [OF A N] cells by blast+
  text \<open>the neighbours\<close>
  have pf: "GET (mem s) (off ?B (?Y - 8)) = tag np False"
    "GET (mem s) (off ?B (?Y - np - 4)) = tag np False"
    using o1(1,2) by simp_all
  have pav: "GET_ALLOC (mem s) (FTRP (mem s) (PREV_BLKP (mem s) (off ?B ?Y))) = 0"
    using prev_alloc_read(2) [OF pf o1(4,8,5)] by simp
  have pv: "PREV_BLKP (mem s) (off ?B ?Y) = off ?B ?X"
    using prev_alloc_read(1) [OF pf o1(4,8,5)] by simp
  have nav: "GET_ALLOC (mem s) (HDRP (NEXT_BLKP (mem s) (off ?B ?Y))) = 0"
    using next_alloc_read [OF o2(1,4,8,5) o3(1,4)] by simp
  have nx: "NEXT_BLKP (mem s) (off ?B ?Y) = off ?B ?Z"
    using hdr_reads(1) [OF o2(1,4,8,5)] .
  have nav': "GET_ALLOC (mem s) (off ?B (?Z - 4)) = 0" using nav nx by (simp add: HDRP_off)
  have pav': "GET_ALLOC (mem s) (FTRP (mem s) (off ?B ?X)) = 0" using pav pv by simp
  have sz2: "block_size s (off ?B ?Y) = word_of_int n" using block_size_tag [OF o2(1,4,8,5)] .
  have gp: "GET_SIZE (mem s) (off ?B (?X - 4)) = word_of_int np"
    using hdr_reads(4) [OF o1(1,4,8,5)] by (simp add: HDRP_off)
  have fz: "FTRP (mem s) (off ?B ?Z) = off ?B (?Z + n2 - 8)"
    using hdr_reads(2) [OF o3(1,4,8,5)] .
  have gn: "GET_SIZE (mem s) (off ?B (?Z + n2 - 8)) = word_of_int n2"
    using GET_SIZE_tag(2) [OF o3(2,4,8,5)] .
  have sm: "(ucast (word_of_int np + word_of_int n2 :: 32 word) :: 64 word) =
      word_of_int np + word_of_int n2"
    using ucast_word_of_int_32_64 [of "np + n2"] n32(2) o1(8) o3(8) by simp
  text \<open>the block before is removed\<close>
  have k1: "?X \<in> set (fl ! class_of np)" using cover_member [OF C b1] .
  have k2: "?Y \<in> set (fl ! class_of n)" using cover_member [OF C b2] .
  have k3: "?Z \<in> set (fl ! class_of n2)" using cover_member [OF C b3] .
  define fl1 where "fl1 = fl[class_of np := remove1 ?X (fl ! class_of np)]"
  obtain s1 where s1: "remove_frome_free_list s (off ?B ?X) = Some s1"
    "heap_listp s1 = ?B" "mem_brk s1 = mem_brk s" "mem_max_addr s1 = mem_max_addr s"
    "links_ok s1 fl1" "nodes_in fl1 ?bs" "\<forall>j<11. set (fl1 ! j) = set (fl ! j) - {?X}"
    "\<forall>c. c \<in> tcells 96 ?bs \<or> c = - 4 \<or> c = 88 \<longrightarrow>
         GET (mem s1) (off ?B c) = GET (mem s) (off ?B c)"
    using remove_stepB [OF refl A N L class_of_less k1 o1(1) b1] unfolding fl1_def by blast
  have f1: "GET (mem s1) (off ?B (?Y - 8)) = tag np False"
    using s1(8) cells pf(1) by simp
  have pv1: "PREV_BLKP (mem s1) (off ?B ?Y) = off ?B ?X"
    using ftr_reads [OF f1 o1(4,8,5)] by simp
  text \<open>the two tags\<close>
  define s2 where "s2 = put_tag s1 (off ?B (?X - 4)) ?v"
  have s2: "heap_listp s2 = ?B" "mem_brk s2 = mem_brk s1" "mem_max_addr s2 = mem_max_addr s1"
    "links_ok s2 fl1"
    "\<forall>t. cell_ok t \<longrightarrow> GET (mem s2) (off ?B t) =
        (if t = ?X - 4 then tag (np + n + n2) False else GET (mem s1) (off ?B t))"
    using tag_stepB [OF s1(2) A s1(6,5) cells(1) s2_def] by (simp_all add: uv)
  have h2: "GET (mem s2) (off ?B (?Y - 4)) = tag n False"
    using s2(5) ok s1(8) cells o2(1) o1(3) by simp
  have nx2: "NEXT_BLKP (mem s2) (off ?B ?Y) = off ?B ?Z"
    using hdr_reads(1) [OF h2 o2(4,8,5)] .
  have z2: "GET (mem s2) (off ?B (?Z - 4)) = tag n2 False"
    using s2(5) ok s1(8) cells o3(1) o1(3) o2(3) by simp
  have fz2: "FTRP (mem s2) (off ?B ?Z) = off ?B (?Z + n2 - 8)"
    using hdr_reads(2) [OF z2 o3(4,8,5)] .
  define s3 where "s3 = put_tag s2 (off ?B (?Z + n2 - 8)) ?v"
  have s3: "heap_listp s3 = ?B" "mem_brk s3 = mem_brk s2" "mem_max_addr s3 = mem_max_addr s2"
    "links_ok s3 fl1"
    "\<forall>t. cell_ok t \<longrightarrow> GET (mem s3) (off ?B t) =
        (if t = ?Z + n2 - 8 then tag (np + n + n2) False else GET (mem s2) (off ?B t))"
    using tag_stepB [OF s2(1) A s1(6) s2(4) cells(5) s3_def] by (simp_all add: uv)
  have h3: "GET (mem s3) (off ?B (?Y - 4)) = tag n False"
    using s3(5) ok h2 o2(3) o3(3) by simp
  have nx3: "NEXT_BLKP (mem s3) (off ?B ?Y) = off ?B ?Z"
    using hdr_reads(1) [OF h3 o2(4,8,5)] .
  have z3: "GET (mem s3) (off ?B (?Z - 4)) = tag n2 False"
    using s3(5) ok z2 o3(3) by simp
  text \<open>the block after and the block itself are removed\<close>
  have k3': "?Z \<in> set (fl1 ! class_of n2)"
    using s1(7) class_of_less [of n2] k3 o1(3) o2(3) by simp
  define fl2 where "fl2 = fl1[class_of n2 := remove1 ?Z (fl1 ! class_of n2)]"
  obtain s4 where s4: "remove_frome_free_list s3 (off ?B ?Z) = Some s4"
    "heap_listp s4 = ?B" "mem_brk s4 = mem_brk s3" "mem_max_addr s4 = mem_max_addr s3"
    "links_ok s4 fl2" "nodes_in fl2 ?bs" "\<forall>j<11. set (fl2 ! j) = set (fl1 ! j) - {?Z}"
    "\<forall>c. c \<in> tcells 96 ?bs \<or> c = - 4 \<or> c = 88 \<longrightarrow>
         GET (mem s4) (off ?B c) = GET (mem s3) (off ?B c)"
    using remove_stepB [OF s3(1) A s1(6) s3(4) class_of_less k3' z3 b3] unfolding fl2_def
    by blast
  have h4: "GET (mem s4) (off ?B (?Y - 4)) = tag n False"
    using s4(8) cells h3 by simp
  have k2': "?Y \<in> set (fl2 ! class_of n)"
    using s1(7) s4(7) class_of_less [of n] k2 o1(3) o2(3) by simp
  define fl3 where "fl3 = fl2[class_of n := remove1 ?Y (fl2 ! class_of n)]"
  obtain s5 where s5: "remove_frome_free_list s4 (off ?B ?Y) = Some s5"
    "heap_listp s5 = ?B" "mem_brk s5 = mem_brk s4" "mem_max_addr s5 = mem_max_addr s4"
    "links_ok s5 fl3" "nodes_in fl3 ?bs" "\<forall>j<11. set (fl3 ! j) = set (fl2 ! j) - {?Y}"
    "\<forall>c. c \<in> tcells 96 ?bs \<or> c = - 4 \<or> c = 88 \<longrightarrow>
         GET (mem s5) (off ?B c) = GET (mem s4) (off ?B c)"
    using remove_stepB [OF s4(2) A s4(6,5) class_of_less k2' h4 b2] unfolding fl3_def
    by blast
  have f5: "GET (mem s5) (off ?B (?Y - 8)) = tag np False"
    using s5(8) s4(8) cells s3(5) s2(5) ok f1 o1(3) o2(3) o3(3) by simp
  have pv5: "PREV_BLKP (mem s5) (off ?B ?Y) = off ?B ?X"
    using ftr_reads [OF f5 o1(4,8,5)] by simp
  have h5: "GET (mem s5) (off ?B (?X - 4)) = tag (np + n + n2) False"
    using s5(8) s4(8) cells s3(5) s2(5) ok o1(3) o2(3) o3(3) by simp
  have g5: "GET (mem s5) (off ?B (?Z + n2 - 8)) = tag (np + n + n2) False"
    using s5(8) s4(8) cells s3(5) ok by simp
  text \<open>the insertion of the merged block\<close>
  have F3: "\<forall>j<11. set (fl3 ! j) = set (fl ! j) - fst ` set (layout ?X ?old)"
    using s1(7) s4(7) s5(7) by auto
  have N3: "nodes_in fl3 ?bs'" using nodes_in_replace [OF C so S F3] .
  have fresh: "\<forall>j<11. ?X \<notin> set (fl3 ! j)" using F3 by simp
  define fl4 where "fl4 = fl3[class_of (np + n + n2) := fl3 ! class_of (np + n + n2) @ [?X]]"
  define s6 where "s6 = add_to_free_list s5 (off ?B ?X)"
  have s6: "heap_listp s6 = ?B" "mem_brk s6 = mem_brk s5" "mem_max_addr s6 = mem_max_addr s5"
    "links_ok s6 fl4" "nodes_in fl4 ?bs'"
    "\<forall>j<11. set (fl4 ! j) = set (fl3 ! j) \<union> (if j = class_of (np + n + n2) then {?X} else {})"
    "\<forall>c. c \<in> tcells 96 ?bs' \<or> c = - 4 \<or> c = 88 \<longrightarrow>
         GET (mem s6) (off ?B c) = GET (mem s5) (off ?B c)"
    using add_stepB [OF s5(2) A' N3 s5(5) b' fresh h5 s6_def] unfolding fl4_def by blast+
  text \<open>the result\<close>
  have res: "coalesce s (off ?B ?Y) = Some (s6, off ?B ?X)"
    unfolding coalesce_def
    by (simp add: pav' nav' Let_def nx pv sz2 gp fz gn sm s1(1) pv1 HDRP_off
        nx2 [unfolded s2_def] fz2 [unfolded s2_def] nx3 [unfolded s3_def s2_def]
        s4(1) [unfolded s3_def s2_def] s5(1) pv5 s6_def)
  have c': "?X - 4 \<in> tcells 96 ?bs'" "?X + (np + n + n2) - 8 \<in> tcells 96 ?bs'"
    using tcells_block [OF b'] by simp_all
  have tags: "tags_ok s6 ?bs'"
  proof (rule retag [OF T S son])
    show "heap_listp s6 = ?B" by (rule s6(1))
    show "mem_brk s6 = mem_brk s" using s6(2) s5(3) s4(3) s3(2) s2(2) s1(3) by simp
    show "\<forall>e\<in>set (layout ?X ?new).
        GET (mem s6) (off ?B (fst e - 4)) = tag (fst (snd e)) (snd (snd e)) \<and>
        GET (mem s6) (off ?B (fst e + fst (snd e) - 8)) = tag (fst (snd e)) (snd (snd e))"
      using s6(7) c' h5 g5 by (simp add: add.assoc)
    show "\<forall>c. (c \<in> tcells 96 ?bs \<or> c = - 4 \<or> c = 88) \<and>
        (c \<in> tcells 96 ?bs' \<or> c = - 4 \<or> c = 88) \<and>
        (c < ?X - 4 \<or> ?X + sum_list (map fst ?old) - 8 < c) \<longrightarrow>
        GET (mem s6) (off ?B c) = GET (mem s) (off ?B c)"
    proof (intro allI impI)
      fix c
      assume c: "(c \<in> tcells 96 ?bs \<or> c = - 4 \<or> c = 88) \<and>
        (c \<in> tcells 96 ?bs' \<or> c = - 4 \<or> c = 88) \<and>
        (c < ?X - 4 \<or> ?X + sum_list (map fst ?old) - 8 < c)"
      then have okc: "cell_ok c" using tcells_not_lcells [OF A N, of c] by blast
      have ne: "c \<noteq> ?X - 4" "c \<noteq> ?Z + n2 - 8" using c o1(3) o2(3) o3(3) by auto
      have "GET (mem s6) (off ?B c) = GET (mem s5) (off ?B c)" using s6(7) c by blast
      also have "\<dots> = GET (mem s4) (off ?B c)" using s5(8) c by blast
      also have "\<dots> = GET (mem s3) (off ?B c)" using s4(8) c by blast
      also have "\<dots> = GET (mem s2) (off ?B c)" using s3(5) okc ne by simp
      also have "\<dots> = GET (mem s1) (off ?B c)" using s2(5) okc ne by simp
      also have "\<dots> = GET (mem s) (off ?B c)" using s1(8) c by blast
      finally show "GET (mem s6) (off ?B c) = GET (mem s) (off ?B c)" .
    qed
  qed
  have cov: "cover fl4 ?bs'"
  proof (rule cover_replace [OF C so son S])
    show "\<forall>j<11. set (fl4 ! j) =
        (set (fl ! j) - fst ` set (layout ?X ?old)) \<union>
        {y. \<exists>m. (y, m, False) \<in> set (layout ?X ?new) \<and> class_of m = j}"
      using s6(6) F3 by auto
  qed
  show ?thesis
    using res tags s6(4) cov s6(1) s6(3) s5(4) s4(4) s3(3) s2(3) s1(4)
    by (intro exI [of _ s6] exI [of _ fl4]) simp
qed

text \<open>The four cases of \<open>coalesce\<close> together.\<close>

lemma coalesce_spec:
  assumes T: "tags_ok s (pre @ (n, False) # post)"
    and L: "lists_ok s (pre @ (n, False) # post) fl"
  shows "\<exists>s' fl'. coalesce s (off (heap_listp s) (heap_end pre)) =
             Some (s', off (heap_listp s) (lowest pre)) \<and>
           tags_ok s' (merged pre n post) \<and> lists_ok s' (merged pre n post) fl' \<and>
           heap_listp s' = heap_listp s \<and> mem_max_addr s' = mem_max_addr s"
proof -
  have Lk: "links_ok s fl" and C: "cover fl (pre @ (n, False) # post)"
    using L unfolding lists_ok_iff by simp_all
  show ?thesis
  proof (cases "free_before pre")
    case False
    then have pa: "pre = [] \<or> snd (last pre)" by (simp add: free_before_def)
    show ?thesis
    proof (cases "free_after post")
      case na: False
      then have "post = [] \<or> snd (hd post)" by (simp add: free_after_def)
      from coalesce_none [OF T pa this] show ?thesis
        using T L False na by (auto simp add: lowest_def merged_def)
    next
      case True
      then obtain n2 post' where p: "post = (n2, False) # post'"
        by (cases post) (auto simp add: free_after_def)
      have T': "tags_ok s (pre @ [(n, False), (n2, False)] @ post')" using T p by simp
      have C': "cover fl (pre @ [(n, False), (n2, False)] @ post')" using C p by simp
      from coalesce_next [OF T' Lk C' pa] show ?thesis
        using False True p unfolding lists_ok_iff by (simp add: lowest_def merged_def)
    qed
  next
    case True
    then obtain pre' np where q: "pre = pre' @ [(np, False)]"
      by (cases pre rule: rev_cases) (auto simp add: free_before_def)
    have e: "heap_end pre = heap_end pre' + np" using q by (simp add: heap_end_def)
    show ?thesis
    proof (cases "free_after post")
      case na: False
      then have na': "post = [] \<or> snd (hd post)" by (simp add: free_after_def)
      have T': "tags_ok s (pre' @ [(np, False), (n, False)] @ post)" using T q by simp
      have C': "cover fl (pre' @ [(np, False), (n, False)] @ post)" using C q by simp
      from coalesce_prev [OF T' Lk C' na'] show ?thesis
        using True na q e unfolding lists_ok_iff by (simp add: lowest_def merged_def)
    next
      case na: True
      then obtain n2 post' where p: "post = (n2, False) # post'"
        by (cases post) (auto simp add: free_after_def)
      have T': "tags_ok s (pre' @ [(np, False), (n, False), (n2, False)] @ post')"
        using T p q by simp
      have C': "cover fl (pre' @ [(np, False), (n, False), (n2, False)] @ post')"
        using C p q by simp
      from coalesce_both [OF T' Lk C'] show ?thesis
        using True na p q e unfolding lists_ok_iff by (simp add: lowest_def merged_def)
    qed
  qed
qed

section \<open>Placement\<close>

lemma place_split:
  assumes T: "tags_ok s (pre @ [(c, False)] @ post)" and L: "links_ok s fl"
    and C: "cover fl (pre @ [(c, False)] @ post)"
    and a: "16 \<le> a" "8 dvd a" "a + 16 \<le> c"
  shows "\<exists>s' fl'. place s (off (heap_listp s) (heap_end pre)) (word_of_int a) =
             Some (s', off (heap_listp s) (heap_end pre + (c - a))) \<and>
           tags_ok s' (pre @ [(c - a, False), (a, True)] @ post) \<and> links_ok s' fl' \<and>
           cover fl' (pre @ [(c - a, False), (a, True)] @ post) \<and>
           fl' = (fl[class_of c := remove1 (heap_end pre) (fl ! class_of c)])
                   [class_of (c - a) :=
                      (fl[class_of c := remove1 (heap_end pre) (fl ! class_of c)]) ! class_of (c - a) @
                      [heap_end pre]] \<and>
           heap_listp s' = heap_listp s \<and> mem_max_addr s' = mem_max_addr s"
proof -
  let ?B = "heap_listp s" and ?X = "heap_end pre" and ?r = "c - a"
  let ?old = "[(c, False)]" and ?new = "[(c - a, False), (a, True)]"
  let ?bs = "pre @ ?old @ post" and ?bs' = "pre @ ?new @ post"
  let ?v = "PACK (word_of_int c - word_of_int a) 0" and ?w = "PACK (word_of_int a) 1"
  have A: "arena_ok ?B ?bs" using T by (rule arena_ok_tags)
  have N: "nodes_in fl ?bs" using C by (rule cover_nodes_in)
  have so: "sizes_ok ?bs" using A by (simp add: arena_ok_def)
  have b1: "(?X, c, False) \<in> set (layout 96 ?bs)" unfolding layout_mid by simp
  note o1 = block_tag [OF T b1]
  have son: "sizes_ok ?new" using o1(4) a by (simp add: sizes_ok_def)
  have S: "sum_list (map fst ?new) = sum_list (map fst ?old)" by simp
  have A': "arena_ok ?B ?bs'" using arena_replace [OF A son S] .
  have b': "(?X, ?r, False) \<in> set (layout 96 ?bs')" "(?X + ?r, a, True) \<in> set (layout 96 ?bs')"
    unfolding layout_mid by simp_all
  have r: "16 \<le> ?r" "8 dvd ?r" "0 \<le> ?r" "?r < 2 ^ 32" "0 \<le> a" "a < 2 ^ 32"
    using a o1(4,5) by simp_all
  have uv: "(ucast ?v :: 32 word) = tag ?r False" using ucast_PACK(2) [of ?r] by simp
  have uw: "(ucast ?w :: 32 word) = tag a True" using ucast_PACK(1) [of a] by simp
  have cells: "?X - 4 \<in> tcells 96 ?bs'" "?X + ?r - 8 \<in> tcells 96 ?bs'"
    "?X + ?r - 4 \<in> tcells 96 ?bs'" "?X + c - 8 \<in> tcells 96 ?bs'"
    using tcells_block [OF b'(1)] tcells_block [OF b'(2)] by simp_all
  have sz: "block_size s (off ?B ?X) = word_of_int c" using block_size_tag [OF o1(1,4,8,5)] .
  have u: "uint (word_of_int ?r :: 64 word) = ?r"
    by (rule uint_word_of_int_64) (use r in simp_all)
  have e: "(word_of_int c - word_of_int a :: 64 word) = word_of_int ?r" by simp
  have ge: "(word_of_int c - word_of_int a :: 64 word) \<ge> 16"
    unfolding e word_le_def u using r(1) by simp
  text \<open>the candidate is removed\<close>
  have k1: "?X \<in> set (fl ! class_of c)" using cover_member [OF C b1] .
  define fl1 where "fl1 = fl[class_of c := remove1 ?X (fl ! class_of c)]"
  obtain s1 where s1: "remove_frome_free_list s (off ?B ?X) = Some s1"
    "heap_listp s1 = ?B" "mem_brk s1 = mem_brk s" "mem_max_addr s1 = mem_max_addr s"
    "links_ok s1 fl1" "nodes_in fl1 ?bs" "\<forall>j<11. set (fl1 ! j) = set (fl ! j) - {?X}"
    "\<forall>c. c \<in> tcells 96 ?bs \<or> c = - 4 \<or> c = 88 \<longrightarrow>
         GET (mem s1) (off ?B c) = GET (mem s) (off ?B c)"
    using remove_stepB [OF refl A N L class_of_less k1 o1(1) b1] unfolding fl1_def by blast
  have F1: "\<forall>j<11. set (fl1 ! j) = set (fl ! j) - fst ` set (layout ?X ?old)"
    using s1(7) by simp
  have N1: "nodes_in fl1 ?bs'" using nodes_in_replace [OF C so S F1] .
  have ok: "cell_ok (?X - 4)" "cell_ok (?X + ?r - 8)" "cell_ok (?X + ?r - 4)"
    "cell_ok (?X + c - 8)"
    using tcells_not_lcells [OF A' N1] cells by blast+
  text \<open>the four tags\<close>
  define s2 where "s2 = put_tag s1 (off ?B (?X - 4)) ?v"
  have s2: "heap_listp s2 = ?B" "mem_brk s2 = mem_brk s1" "mem_max_addr s2 = mem_max_addr s1"
    "links_ok s2 fl1"
    "\<forall>t. cell_ok t \<longrightarrow> GET (mem s2) (off ?B t) =
        (if t = ?X - 4 then tag ?r False else GET (mem s1) (off ?B t))"
    using tag_stepB [OF s1(2) A' N1 s1(5) cells(1) s2_def] by (simp_all add: uv)
  have h2: "GET (mem s2) (off ?B (?X - 4)) = tag ?r False" using s2(5) ok by simp
  have ft2: "FTRP (mem s2) (off ?B ?X) = off ?B (?X + ?r - 8)"
    using hdr_reads(2) [OF h2 r(2,3,4)] .
  define s3 where "s3 = put_tag s2 (off ?B (?X + ?r - 8)) ?v"
  have s3: "heap_listp s3 = ?B" "mem_brk s3 = mem_brk s2" "mem_max_addr s3 = mem_max_addr s2"
    "links_ok s3 fl1"
    "\<forall>t. cell_ok t \<longrightarrow> GET (mem s3) (off ?B t) =
        (if t = ?X + ?r - 8 then tag ?r False else GET (mem s2) (off ?B t))"
    using tag_stepB [OF s2(1) A' N1 s2(4) cells(2) s3_def] by (simp_all add: uv)
  have h3: "GET (mem s3) (off ?B (?X - 4)) = tag ?r False" using s3(5) ok h2 r(1) by simp
  have nx3: "NEXT_BLKP (mem s3) (off ?B ?X) = off ?B (?X + ?r)"
    using hdr_reads(1) [OF h3 r(2,3,4)] .
  define s4 where "s4 = put_tag s3 (off ?B (?X + ?r - 4)) ?w"
  have s4: "heap_listp s4 = ?B" "mem_brk s4 = mem_brk s3" "mem_max_addr s4 = mem_max_addr s3"
    "links_ok s4 fl1"
    "\<forall>t. cell_ok t \<longrightarrow> GET (mem s4) (off ?B t) =
        (if t = ?X + ?r - 4 then tag a True else GET (mem s3) (off ?B t))"
    using tag_stepB [OF s3(1) A' N1 s3(4) cells(3) s4_def] by (simp_all add: uw)
  have h4: "GET (mem s4) (off ?B (?X + ?r - 4)) = tag a True" using s4(5) ok by simp
  have ft4: "FTRP (mem s4) (off ?B (?X + ?r)) = off ?B (?X + c - 8)"
    using hdr_reads(2) [OF h4 a(2) r(5,6)] by simp
  define s5 where "s5 = put_tag s4 (off ?B (?X + c - 8)) ?w"
  have s5: "heap_listp s5 = ?B" "mem_brk s5 = mem_brk s4" "mem_max_addr s5 = mem_max_addr s4"
    "links_ok s5 fl1"
    "\<forall>t. cell_ok t \<longrightarrow> GET (mem s5) (off ?B t) =
        (if t = ?X + c - 8 then tag a True else GET (mem s4) (off ?B t))"
    using tag_stepB [OF s4(1) A' N1 s4(4) cells(4) s5_def] by (simp_all add: uw)
  have v5: "GET (mem s5) (off ?B (?X - 4)) = tag ?r False"
    "GET (mem s5) (off ?B (?X + ?r - 8)) = tag ?r False"
    "GET (mem s5) (off ?B (?X + ?r - 4)) = tag a True"
    "GET (mem s5) (off ?B (?X + c - 8)) = tag a True"
    using s5(5) s4(5) s3(5) s2(5) ok a r(1) by simp_all
  have pv5: "PREV_BLKP (mem s5) (off ?B (?X + ?r)) = off ?B ?X"
    using ftr_reads [OF v5(2) r(2,3,4)] by simp
  text \<open>the remainder goes to the list of its class\<close>
  have fresh: "\<forall>j<11. ?X \<notin> set (fl1 ! j)" using F1 by simp
  define fl2 where "fl2 = fl1[class_of ?r := fl1 ! class_of ?r @ [?X]]"
  define s6 where "s6 = add_to_free_list s5 (off ?B ?X)"
  have s6: "heap_listp s6 = ?B" "mem_brk s6 = mem_brk s5" "mem_max_addr s6 = mem_max_addr s5"
    "links_ok s6 fl2" "nodes_in fl2 ?bs'"
    "\<forall>j<11. set (fl2 ! j) = set (fl1 ! j) \<union> (if j = class_of ?r then {?X} else {})"
    "\<forall>c. c \<in> tcells 96 ?bs' \<or> c = - 4 \<or> c = 88 \<longrightarrow>
         GET (mem s6) (off ?B c) = GET (mem s5) (off ?B c)"
    using add_stepB [OF s5(1) A' N1 s5(4) b'(1) fresh v5(1) s6_def] unfolding fl2_def by blast+
  text \<open>the result\<close>
  have res: "place s (off ?B ?X) (word_of_int a) = Some (s6, off ?B (?X + ?r))"
    unfolding place_def
    by (simp add: sz ge Let_def DSIZE_def s1(1) HDRP_off ft2 [unfolded s2_def]
        nx3 [unfolded s3_def s2_def] ft4 [unfolded s4_def s3_def s2_def]
        pv5 [unfolded s5_def s4_def s3_def s2_def] s6_def s5_def s4_def s3_def s2_def)
  have tags: "tags_ok s6 ?bs'"
  proof (rule retag [OF T S son])
    show "heap_listp s6 = ?B" by (rule s6(1))
    show "mem_brk s6 = mem_brk s" using s6(2) s5(2) s4(2) s3(2) s2(2) s1(3) by simp
    show "\<forall>e\<in>set (layout ?X ?new).
        GET (mem s6) (off ?B (fst e - 4)) = tag (fst (snd e)) (snd (snd e)) \<and>
        GET (mem s6) (off ?B (fst e + fst (snd e) - 8)) = tag (fst (snd e)) (snd (snd e))"
      using s6(7) cells v5 by simp
    show "\<forall>c'. (c' \<in> tcells 96 ?bs \<or> c' = - 4 \<or> c' = 88) \<and>
        (c' \<in> tcells 96 ?bs' \<or> c' = - 4 \<or> c' = 88) \<and>
        (c' < ?X - 4 \<or> ?X + sum_list (map fst ?old) - 8 < c') \<longrightarrow>
        GET (mem s6) (off ?B c') = GET (mem s) (off ?B c')"
    proof (intro allI impI)
      fix c'
      assume c: "(c' \<in> tcells 96 ?bs \<or> c' = - 4 \<or> c' = 88) \<and>
        (c' \<in> tcells 96 ?bs' \<or> c' = - 4 \<or> c' = 88) \<and>
        (c' < ?X - 4 \<or> ?X + sum_list (map fst ?old) - 8 < c')"
      then have okc: "cell_ok c'" using tcells_not_lcells [OF A N, of c'] by blast
      have ne: "c' \<noteq> ?X - 4" "c' \<noteq> ?X + ?r - 8" "c' \<noteq> ?X + ?r - 4" "c' \<noteq> ?X + c - 8"
        using c a by auto
      have "GET (mem s6) (off ?B c') = GET (mem s5) (off ?B c')" using s6(7) c by blast
      also have "\<dots> = GET (mem s4) (off ?B c')" using s5(5) okc ne by simp
      also have "\<dots> = GET (mem s3) (off ?B c')" using s4(5) okc ne by simp
      also have "\<dots> = GET (mem s2) (off ?B c')" using s3(5) okc ne by simp
      also have "\<dots> = GET (mem s1) (off ?B c')" using s2(5) okc ne by simp
      also have "\<dots> = GET (mem s) (off ?B c')" using s1(8) c by blast
      finally show "GET (mem s6) (off ?B c') = GET (mem s) (off ?B c')" .
    qed
  qed
  have cov: "cover fl2 ?bs'"
  proof (rule cover_replace [OF C so son S])
    show "\<forall>j<11. set (fl2 ! j) =
        (set (fl ! j) - fst ` set (layout ?X ?old)) \<union>
        {y. \<exists>m. (y, m, False) \<in> set (layout ?X ?new) \<and> class_of m = j}"
      using s6(6) F1 by auto
  qed
  show ?thesis
    using res tags s6(4) cov s6(1) s6(3) s5(3) s4(3) s3(3) s2(3) s1(4)
    by (intro exI [of _ s6] exI [of _ fl2]) (simp add: fl2_def fl1_def)
qed

section \<open>The claims\<close>

text \<open>
  Claim C6. When the arena cannot grow, \<open>zeroAllocate\<close> is claimed to return null without
  writing through the failed allocation result. The source calls
  \<open>memset(newptr, 0, bytes)\<close> without looking at \<open>newptr\<close>: in an arena that cannot grow,
  \<open>calloc(1, 1000)\<close> returns null, and the byte at address 0 (and every byte up to
  address 999) has been set to zero through the null pointer, while the byte at address
  1000 keeps its value.
\<close>

theorem calloc_writes_through_null: "null_write_probe = Some (0, 0x55, 0, 0, 0x55)"
  by (simp add: null_write_probe_def run_defs run_mem cong: run_cong)

text \<open>
  Claim C7, as amended. If \<open>zeroAllocate(count, elemSize)\<close> returns, with the pointer \<open>p\<close>,
  then \<open>p\<close> is what the underlying \<open>allocate(count * elemSize)\<close> returned (the product is
  that of \<open>size_t\<close> values), the first \<open>count * elemSize\<close> bytes at \<open>p\<close> are zero, and every
  other byte of the memory, the rest of the payload of the block included, is as
  \<open>allocate\<close> left it: the rest of the payload is not cleared. When the product is 0, as
  it is for \<open>count = 0\<close>, the result is null and the state is the one \<open>allocate(0)\<close> left.
\<close>

theorem calloc_zero_prefix:
  assumes "calloc s nmemb sz = Some (s', p)"
  shows "\<exists>s1. malloc s (nmemb * sz) = Some (s1, p) \<and>
           s' = s1\<lparr>mem := mem s'\<rparr> \<and>
           (\<forall>i. i < nmemb * sz \<longrightarrow> mem s' (p + i) = 0) \<and>
           (\<forall>a. \<not> a - p < nmemb * sz \<longrightarrow> mem s' a = mem s1 a) \<and>
           (nmemb * sz = 0 \<longrightarrow> p = 0 \<and> s' = s1)"
proof -
  from assms obtain s1 where m: "malloc s (nmemb * sz) = Some (s1, p)"
    and s': "s' = s1\<lparr>mem := memset (mem s1) p 0 (nmemb * sz)\<rparr>"
    by (auto simp add: calloc_def Let_def split: bind_splits)
  have z: "p = 0 \<and> s' = s1" if "nmemb * sz = 0"
  proof -
    have "p = 0" using m that by (auto simp add: malloc_def split: bind_splits)
    moreover have "memset (mem s1) p 0 0 = mem s1" by (simp add: memset_def)
    ultimately show ?thesis using s' that by simp
  qed
  show ?thesis
    using m z unfolding s' by (intro exI [of _ s1]) (simp add: memset_def)
qed

text \<open>
  Claim C7 as stated fails: the block handed back by \<open>calloc(1, 9)\<close> has 32 bytes, so a
  payload of 24 bytes, and the byte at index 9 of the payload is not zero (it is left
  from the link field the block held while it was free).
\<close>

theorem calloc_tail_counterexample: "zero_fill_probe = Some (0x1248, 32, 0x10)"
  by (simp add: zero_fill_probe_def run_defs run_mem cong: run_cong)

text \<open>
  Claim C8, as amended. \<open>resize(ptr, 0)\<close> is \<open>free(ptr)\<close> and returns null, for every \<open>ptr\<close>;
  \<open>resize(null, newSize)\<close> is \<open>allocate(newSize)\<close> whenever \<open>newSize\<close> is not 0 or the
  allocator is already initialised.
\<close>

theorem realloc_delegates:
  "realloc s ptr 0 = map_option (\<lambda>s'. (s', 0)) (free s ptr) \<and>
   (sz \<noteq> 0 \<or> heap_listp s \<noteq> 0 \<longrightarrow> realloc s 0 sz = malloc s sz)"
  by (auto simp add: realloc_def malloc_def free_def lazy_init_def)

lemma malloc0_boot:
  "map_option (\<lambda>r. heap_listp (fst r)) (malloc (boot (\<lambda>_. 0) 0x2000) 0) = Some 0x1008"
  by (simp add: run_defs run_mem cong: run_cong)

lemma realloc0_boot:
  "map_option (\<lambda>r. heap_listp (fst r)) (realloc (boot (\<lambda>_. 0) 0x2000) 0 0) = Some 0"
  by (simp add: boot_def realloc_def free_def)

text \<open>
  Claim C8 as stated fails for \<open>resize(null, 0)\<close> before the first use of the allocator:
  the test for size 0 comes first, so the call is \<open>free(null)\<close>, which leaves the allocator
  uninitialised, while \<open>allocate(0)\<close> initialises the heap before it returns null.
\<close>

theorem realloc_null_zero_counterexample:
  "realloc (boot (\<lambda>_. 0) 0x2000) 0 0 \<noteq> malloc (boot (\<lambda>_. 0) 0x2000) 0"
  using malloc0_boot realloc0_boot by auto

theorem realloc_delegates_witness:
  "(8::64 word) \<noteq> 0 \<and>
   realloc (boot (\<lambda>_. 0) 0x2000) 0 8 = malloc (boot (\<lambda>_. 0) 0x2000) 8"
  using realloc_delegates [of "boot (\<lambda>_. 0) 0x2000" 0 8] by simp

text \<open>
  In a memory whose bytes are all \<open>0x55\<close>, \<open>calloc(2, 8)\<close> returns the block that
  \<open>malloc(16)\<close> returns, whose payload byte at index 3 was \<open>0x55\<close> and is 0 afterwards;
  \<open>calloc(0, 8)\<close> returns null.
\<close>

lemma zero_prefix_probe_value: "zero_prefix_probe = Some (0x1250, 0x55, 0x1250, 0, 0)"
  by (simp add: zero_prefix_probe_def run_defs run_mem cong: run_cong)

theorem calloc_zero_prefix_witness:
  "\<exists>s s1 s' s0 p0.
     lazy_init (boot (\<lambda>_. 0x55) 0x2000) = Some s \<and>
     calloc s 2 8 = Some (s', 0x1250) \<and> malloc s (2 * 8) = Some (s1, 0x1250) \<and>
     (3 :: 64 word) < 2 * 8 \<and> mem s1 (0x1250 + 3) = 0x55 \<and> mem s' (0x1250 + 3) = 0 \<and>
     calloc s 0 8 = Some (s0, p0) \<and> (0 :: 64 word) * 8 = 0 \<and> p0 = 0"
proof -
  from zero_prefix_probe_value obtain s r1 r r0
    where i: "lazy_init (boot (\<lambda>_. 0x55) 0x2000) = Some s"
      and m: "malloc s 16 = Some r1" and c: "calloc s 2 8 = Some r" and c0: "calloc s 0 8 = Some r0"
      and v: "snd r1 = 0x1250" "mem (fst r1) (snd r1 + 3) = 0x55" "snd r = 0x1250"
    unfolding zero_prefix_probe_def by (auto split: bind_splits)
  have c': "calloc s 2 8 = Some (fst r, 0x1250)" using c v(3) by (cases r) simp
  have c0': "calloc s 0 8 = Some (fst r0, snd r0)" using c0 by simp
  from calloc_zero_prefix [OF c'] obtain s1
    where s1: "malloc s (2 * 8) = Some (s1, 0x1250)"
      "\<forall>i. i < 2 * 8 \<longrightarrow> mem (fst r) (0x1250 + i) = 0"
    by blast
  have e: "s1 = fst r1" using s1(1) m by simp
  have z: "mem (fst r) (0x1250 + 3) = 0" using s1(2) [rule_format, of 3] by simp
  from calloc_zero_prefix [OF c0'] have p0: "snd r0 = 0" by simp
  show ?thesis
    using i c' s1(1) z c0' p0 v(1,2) unfolding e
    by (intro exI [of _ s] exI [of _ "fst r1"] exI [of _ "fst r"] exI [of _ "fst r0"]
        exI [of _ "snd r0"]) simp
qed

text \<open>
  Claim C2. The search is claimed to be first-fit in every class but the two largest.
  In the source the first loop stops at the anchor of the third class already, so the
  class with bound 64 is searched best-fit: with a free block of 64 bytes first in its
  list and a free block of 48 bytes after it, the search for 48 bytes returns the second
  block, where the documented policy returns the first.
\<close>

theorem find_fit_best_fit_in_third_class:
  "search_probe = Some (0x1228, 64, 0x11E8, 0x1228)"
  by (simp add: search_probe_def find_fit_documented_def first_fit_loop_documented.simps
        run_defs run_mem cong: run_cong)

text \<open>
  Claim C5, as amended. In the fallback branch \<open>resize\<close> allocates a fresh block with
  \<open>allocate(asize)\<close>, copies \<open>oldsize\<close> bytes, the size of the whole old block (its
  payload and the 8 bytes after it), frees the old block and returns the new pointer; when
  there is no fit and the arena cannot grow, it returns null and the state is unchanged.
\<close>

theorem realloc_fallback_path:
  assumes "fallback_branch s ptr sz"
  shows "realloc s ptr sz =
           do {
             r \<leftarrow> malloc s (adjust_size sz);
             if snd r = 0 then Some (fst r, 0)
             else
               do {
                 s2 \<leftarrow> free ((fst r)\<lparr>mem := memcpy (mem (fst r)) (snd r) ptr (block_size s ptr)\<rparr>) ptr;
                 Some (s2, snd r)
               }
           } \<and>
         (heap_listp s \<noteq> 0 \<and> find_fit s (adjust_size (adjust_size sz)) = Some 0 \<and>
          unat (mem_max_addr s) <
            unat (mem_brk s) +
            unat (extend_size (MAX_macro (adjust_size (adjust_size sz)) CHUNKSIZE div WSIZE))
          \<longrightarrow> realloc s ptr sz = Some (s, 0))"
proof -
  have eq: "realloc s ptr sz = realloc_fallback s ptr (block_size s ptr) (adjust_size sz)"
    using assms by (auto simp add: fallback_branch_def realloc_def Let_def)
  have fail: "malloc s (adjust_size sz) = Some (s, 0)"
    if "heap_listp s \<noteq> 0" "find_fit s (adjust_size (adjust_size sz)) = Some 0"
       "unat (mem_max_addr s) <
          unat (mem_brk s) +
          unat (extend_size (MAX_macro (adjust_size (adjust_size sz)) CHUNKSIZE div WSIZE))"
    using that by (simp add: malloc_def lazy_init_def extend_heap_def mem_sbrk_def Let_def)
  have unf: "realloc_fallback s ptr (block_size s ptr) (adjust_size sz) =
           do {
             r \<leftarrow> malloc s (adjust_size sz);
             if snd r = 0 then Some (fst r, 0)
             else
               do {
                 s2 \<leftarrow> free ((fst r)\<lparr>mem := memcpy (mem (fst r)) (snd r) ptr (block_size s ptr)\<rparr>) ptr;
                 Some (s2, snd r)
               }
           }"
    unfolding realloc_fallback_def Let_def by (rule refl)
  have "realloc s ptr sz = Some (s, 0)"
    if "heap_listp s \<noteq> 0" "find_fit s (adjust_size (adjust_size sz)) = Some 0"
       "unat (mem_max_addr s) <
          unat (mem_brk s) +
          unat (extend_size (MAX_macro (adjust_size (adjust_size sz)) CHUNKSIZE div WSIZE))"
    using fail [OF that] eq by (simp add: realloc_fallback_def)
  then show ?thesis
    using eq unf by simp
qed

lemma full_heap_facts:
  "case full_heap of None \<Rightarrow> False
   | Some r \<Rightarrow>
       snd r = 0x1250 \<and> heap_listp (fst r) = 0x1008 \<and> mem_brk (fst r) = 0x1268 \<and>
       mem_max_addr (fst r) = 0x1268 \<and> block_size (fst r) (snd r) = 24 \<and>
       GET_ALLOC (mem (fst r)) (HDRP (NEXT_BLKP (mem (fst r)) (snd r))) = 1 \<and>
       find_fit (fst r) 616 = Some 0"
  by (simp add: full_heap_def run_defs run_mem cong: run_cong)

theorem realloc_fallback_path_witness:
  "fallback_branch full_heap_state full_heap_block 600 \<and>
   heap_listp full_heap_state \<noteq> 0 \<and>
   find_fit full_heap_state (adjust_size (adjust_size 600)) = Some 0 \<and>
   unat (mem_max_addr full_heap_state) <
     unat (mem_brk full_heap_state) +
     unat (extend_size (MAX_macro (adjust_size (adjust_size 600)) CHUNKSIZE div WSIZE)) \<and>
   realloc full_heap_state full_heap_block 600 = Some (full_heap_state, 0)"
proof -
  obtain r where r: "full_heap = Some r"
    using full_heap_facts by (cases full_heap) simp_all
  have f: "snd r = 0x1250" "heap_listp (fst r) = 0x1008"
      "mem_brk (fst r) = 0x1268" "mem_max_addr (fst r) = 0x1268" "block_size (fst r) (snd r) = 24"
      "GET_ALLOC (mem (fst r)) (HDRP (NEXT_BLKP (mem (fst r)) (snd r))) = 1"
      "find_fit (fst r) 616 = Some 0"
    using full_heap_facts unfolding r by auto
  have st: "full_heap_state = fst r" "full_heap_block = snd r"
    unfolding full_heap_state_def full_heap_block_def r by simp_all
  have a: "adjust_size 600 = 608" "adjust_size 608 = 616"
    by (simp_all add: adjust_size_def DSIZE_def)
  have b: "fallback_branch full_heap_state full_heap_block 600"
    using f by (simp add: st fallback_branch_def a DSIZE_def)
  have c: "heap_listp full_heap_state \<noteq> 0" using f by (simp add: st)
  have d: "find_fit full_heap_state (adjust_size (adjust_size 600)) = Some 0"
    using f by (simp add: st a)
  have e: "unat (mem_max_addr full_heap_state) <
     unat (mem_brk full_heap_state) +
     unat (extend_size (MAX_macro (adjust_size (adjust_size 600)) CHUNKSIZE div WSIZE))"
    using f by (simp add: st a extend_size_def MAX_macro_def CHUNKSIZE_def WSIZE_def)
  from realloc_fallback_path [OF b] c d e
  have "realloc full_heap_state full_heap_block 600 = Some (full_heap_state, 0)" by blast
  with b c d e show ?thesis by blast
qed

text \<open>
  Claim C5 as stated fails in the number of bytes copied: resizing a block of 24 bytes
  (payload 16) to 17 bytes, the source copies 24 bytes, so the byte at index 16 of the
  new payload holds the first byte of the old footer, where copying
  \<open>min(oldPayloadSize, newSize) = 16\<close> bytes leaves it as it was.
\<close>

theorem realloc_copy_length_counterexample: "copy_probe = Some (0x1228, 0x19, 0x1228, 0)"
  by (simp add: copy_probe_def realloc_fallback_spec_def run_defs run_mem cong: run_cong)

text \<open>
  Claim C1. The claim has the request placed in the low \<open>asize\<close> bytes of the candidate,
  as the comment of \<open>place\<close> in the source has it (``Place block of asize bytes at start
  of free block bp''), and the payload of the candidate returned. The source does
  otherwise: it writes the free tags of \<open>csize - asize\<close> bytes at the candidate itself, moves
  \<open>bp\<close> to the next block, writes the allocated tags there and returns that pointer. Placing
  32 bytes in the free block of 512 bytes at \<open>0x1068\<close> of the freshly initialised heap (the
  call that \<open>malloc(24)\<close> makes there), it returns \<open>0x1248\<close>, the payload of the high 32
  bytes; the header at the start of the candidate is that of a free block of 480 bytes,
  and the header of the block returned is that of an allocated block of 32 bytes.
\<close>

theorem place_puts_block_at_end: "place_probe = Some (0x1248, 480, 33)"
  by (simp add: place_probe_def run_defs run_mem cong: run_cong)

text \<open>
  Claim C4 at a size whose adjustment wraps around: \<open>malloc(SIZE_MAX)\<close> on the freshly
  initialised heap computes the adjusted size 8, returns a pointer that is not null, and
  the block at that pointer has 8 bytes, so no payload at all.
\<close>

theorem malloc_size_overflow: "malloc_overflow_probe = Some (0x1260, 8)"
  by (simp add: malloc_overflow_probe_def run_defs run_mem cong: run_cong)

text \<open>
  Claim C10. The best-fit stage starts from the running best size \<open>2^30\<close> and takes a
  node only if its size is at most the running best. On a well-formed heap in which
  every free block of at least \<open>asize\<close> bytes has more than \<open>2^30\<close> bytes, \<open>find_fit\<close> returns
  null, and \<open>malloc\<close> then extends the heap.
\<close>

theorem find_fit_ignores_blocks_beyond_2_30:
  assumes "tags_ok s bs" "lists_ok s bs fl"
    "\<forall>b\<in>set bs. \<not> snd b \<and> uint asize \<le> fst b \<longrightarrow> 2 ^ 30 < fst b"
  shows "find_fit s asize = Some 0 \<and>
         (sz \<noteq> 0 \<and> adjust_size sz = asize \<longrightarrow>
          malloc s sz =
            do {
              r \<leftarrow> extend_heap s (MAX_macro asize CHUNKSIZE div WSIZE);
              if snd r = 0 then Some (fst r, 0) else place (fst r) (snd r) asize
            })"
proof -
  have f: "find_fit s asize = Some 0"
    unfolding find_fit_def find_list_tail_class
    by (rule first_fit_loop_none [OF assms(1,2) class_of_less assms(3)])
  have "heap_listp s \<noteq> 0" using assms(1) by (auto simp add: tags_ok_def)
  then show ?thesis using f by (auto simp add: malloc_def lazy_init_def Let_def)
qed

lemma huge_heap_ok:
  "case huge_scenario of None \<Rightarrow> False
   | Some s \<Rightarrow>
       tags_ok s [(1073742448, False)] \<and>
       lists_ok s [(1073742448, False)] [[], [], [], [], [], [], [], [], [], [], [96]]"
  by (simp add: huge_scenario_def tags_ok_def lists_ok_def list_ok_def head_of_def heap_end_def
        off_def tag_def free_offs_def class_of_def upt_rec run_defs run_mem cong: run_cong)

theorem find_fit_ignores_blocks_beyond_2_30_witness:
  "tags_ok huge_heap [(1073742448, False)] \<and>
   lists_ok huge_heap [(1073742448, False)] [[], [], [], [], [], [], [], [], [], [], [96]] \<and>
   uint (32 :: 64 word) \<le> 1073742448 \<and> (2::int) ^ 30 < 1073742448 \<and>
   (24 :: 64 word) \<noteq> 0 \<and> adjust_size 24 = 32 \<and>
   find_fit huge_heap 32 = Some 0 \<and>
   malloc huge_heap 24 =
     do {
       r \<leftarrow> extend_heap huge_heap (MAX_macro 32 CHUNKSIZE div WSIZE);
       if snd r = 0 then Some (fst r, 0) else place (fst r) (snd r) 32
     }"
proof -
  obtain s where s: "huge_scenario = Some s"
    using huge_heap_ok by (cases huge_scenario) simp_all
  have h: "huge_heap = s" unfolding huge_heap_def s by simp
  have t: "tags_ok huge_heap [(1073742448, False)]"
    and l: "lists_ok huge_heap [(1073742448, False)] [[], [], [], [], [], [], [], [], [], [], [96]]"
    using huge_heap_ok unfolding s h by simp_all
  have b: "\<forall>b\<in>set [(1073742448 :: int, False)]. \<not> snd b \<and> uint (32 :: 64 word) \<le> fst b \<longrightarrow> 2 ^ 30 < fst b"
    by simp
  have a: "adjust_size 24 = 32" by (simp add: adjust_size_def DSIZE_def)
  from find_fit_ignores_blocks_beyond_2_30 [OF t l b, of 24] a
  have "find_fit huge_heap 32 = Some 0 \<and>
        malloc huge_heap 24 =
          do {
            r \<leftarrow> extend_heap huge_heap (MAX_macro 32 CHUNKSIZE div WSIZE);
            if snd r = 0 then Some (fst r, 0) else place (fst r) (snd r) 32
          }"
    by simp
  then show ?thesis using t l a by simp
qed

text \<open>
  Claim C9. The block \<open>bp\<close> of \<open>n\<close> bytes has been freed and is on its list, in a heap
  whose tags and lists are otherwise well formed. \<open>coalesce\<close> returns, in each of its four
  cases, the payload of the first of the blocks it merges: that of the block before \<open>bp\<close>
  when that block is free, \<open>bp\<close> itself otherwise; no merged block lies below it, and
  afterwards the unified free block is the block of the heap at that address.
\<close>

theorem coalesce_returns_lowest:
  assumes "tags_ok s (pre @ (n, False) # post)" "lists_ok s (pre @ (n, False) # post) fl"
  shows "\<exists>s' fl'. coalesce s (off (heap_listp s) (heap_end pre)) =
             Some (s', off (heap_listp s) (lowest pre)) \<and>
           lowest pre \<le> heap_end pre \<and>
           tags_ok s' (merged pre n post) \<and> lists_ok s' (merged pre n post) fl' \<and>
           (\<exists>m. (lowest pre, m, False) \<in> set (layout 96 (merged pre n post)) \<and> n \<le> m)"
proof -
  have so: "sizes_ok (pre @ (n, False) # post)"
    using arena_ok_tags [OF assms(1)] by (simp add: arena_ok_def)
  have lp: "0 \<le> fst (last pre)" if "pre \<noteq> []"
    using so that by (cases pre rule: rev_cases) (auto simp add: sizes_ok_def)
  have hp: "0 \<le> fst (hd post)" if "post \<noteq> []"
    using so that by (cases post) (auto simp add: sizes_ok_def)
  have le: "lowest pre \<le> heap_end pre" using lp by (auto simp add: lowest_def free_before_def)
  have he: "heap_end (butlast pre) = heap_end pre - fst (last pre)" if "pre \<noteq> []"
    using that by (cases pre rule: rev_cases) (auto simp add: heap_end_def)
  have lw: "lowest pre = heap_end (if free_before pre then butlast pre else pre)"
    using he by (simp add: lowest_def free_before_def)
  have "(lowest pre, (if free_before pre then fst (last pre) else 0) + n +
            (if free_after post then fst (hd post) else 0), False)
          \<in> set (layout 96 (merged pre n post))"
    unfolding lw merged_def by (rule mid_block)
  moreover have "n \<le> (if free_before pre then fst (last pre) else 0) + n +
            (if free_after post then fst (hd post) else 0)"
    using lp hp by (auto simp add: free_before_def free_after_def)
  ultimately have m: "\<exists>m. (lowest pre, m, False) \<in> set (layout 96 (merged pre n post)) \<and> n \<le> m"
    by blast
  from coalesce_spec [OF assms] le m show ?thesis by blast
qed

lemma merge_heap_ok:
  "case merge_scenario of None \<Rightarrow> False
   | Some s \<Rightarrow>
       heap_listp s = 0x1008 \<and>
       tags_ok s [(480, False), (32, False)] \<and>
       lists_ok s [(480, False), (32, False)] [[], [576], [], [], [], [96], [], [], [], [], []]"
  by (simp add: merge_scenario_def tags_ok_def lists_ok_def list_ok_def head_of_def heap_end_def
        off_def tag_def free_offs_def class_of_def upt_rec run_defs run_mem cong: run_cong)

theorem coalesce_returns_lowest_witness:
  "tags_ok merge_heap ([(480, False)] @ (32, False) # []) \<and>
   lists_ok merge_heap ([(480, False)] @ (32, False) # [])
     [[], [576], [], [], [], [96], [], [], [], [], []] \<and>
   (\<exists>s' fl'. coalesce merge_heap (0x1248) = Some (s', 0x1068) \<and>
      tags_ok s' [(512, False)] \<and> lists_ok s' [(512, False)] fl' \<and>
      (\<exists>m. (96, m, False) \<in> set (layout 96 [(512, False)]) \<and> 32 \<le> m))"
proof -
  obtain s where s: "merge_scenario = Some s"
    using merge_heap_ok by (cases merge_scenario) simp_all
  have h: "merge_heap = s" unfolding merge_heap_def s by simp
  have B: "heap_listp merge_heap = 0x1008"
    and t: "tags_ok merge_heap ([(480, False)] @ (32, False) # [])"
    and l: "lists_ok merge_heap ([(480, False)] @ (32, False) # [])
      [[], [576], [], [], [], [96], [], [], [], [], []]"
    using merge_heap_ok unfolding s h by simp_all
  have v: "lowest [(480, False)] = 96" "heap_end [(480, False)] = 576"
    "merged [(480, False)] 32 [] = [(512, False)]"
    by (simp_all add: lowest_def heap_end_def merged_def free_before_def free_after_def)
  have o: "off (0x1008 :: 64 word) 576 = 0x1248" "off (0x1008 :: 64 word) 96 = 0x1068"
    by (simp_all add: off_def)
  from coalesce_returns_lowest [OF t l] show ?thesis
    using t l unfolding B v o by simp
qed

text \<open>
  What \<open>place\<close> does whenever it splits (the behaviour of the source that claim C1 and the
  comment of \<open>place\<close> describe otherwise). On a heap with well-formed tags and lists, for a
  free candidate of \<open>csize\<close> bytes and an adjusted size \<open>asize\<close> that is a multiple of 8 of
  at least 16 bytes (as \<open>malloc\<close> computes it for every request of at most \<open>SIZE_MAX - 15\<close>
  bytes) with \<open>csize - asize\<close> at least 16: the candidate is taken from its list and split so
  that the high \<open>asize\<close> bytes become the allocated block and the low \<open>csize - asize\<close> bytes
  stay a free block, with free tags, appended to the list of the class of its new size; the
  pointer returned is the payload of the high part, \<open>csize - asize\<close> bytes above the
  candidate. Tags and lists are well formed afterwards.
\<close>

theorem place_allocates_high_part:
  assumes "tags_ok s (pre @ (c, False) # post)" "lists_ok s (pre @ (c, False) # post) fl"
    "16 \<le> a" "8 dvd a" "a + 16 \<le> c"
  shows "\<exists>s' fl'. place s (off (heap_listp s) (heap_end pre)) (word_of_int a) =
             Some (s', off (heap_listp s) (heap_end pre + (c - a))) \<and>
           tags_ok s' (pre @ (c - a, False) # (a, True) # post) \<and>
           lists_ok s' (pre @ (c - a, False) # (a, True) # post) fl' \<and>
           last (fl' ! class_of (c - a)) = heap_end pre \<and>
           GET (mem s') (HDRP (off (heap_listp s) (heap_end pre))) = tag (c - a) False \<and>
           GET (mem s') (HDRP (off (heap_listp s) (heap_end pre + (c - a)))) = tag a True"
proof -
  let ?bs' = "pre @ (c - a, False) # (a, True) # post"
  have T: "tags_ok s (pre @ [(c, False)] @ post)" using assms(1) by simp
  have L: "links_ok s fl" and C: "cover fl (pre @ [(c, False)] @ post)"
    using assms(2) unfolding lists_ok_iff by simp_all
  from place_split [OF T L C assms(3,4,5)] obtain s' fl'
    where r: "place s (off (heap_listp s) (heap_end pre)) (word_of_int a) =
        Some (s', off (heap_listp s) (heap_end pre + (c - a)))"
      "tags_ok s' ?bs'" "links_ok s' fl'" "cover fl' ?bs'"
      "fl' = (fl[class_of c := remove1 (heap_end pre) (fl ! class_of c)])
                   [class_of (c - a) :=
                      (fl[class_of c := remove1 (heap_end pre) (fl ! class_of c)]) ! class_of (c - a) @
                      [heap_end pre]]"
      "heap_listp s' = heap_listp s"
    by auto
  have len: "length fl = 11" using L by (simp add: links_ok_def)
  have la: "last (fl' ! class_of (c - a)) = heap_end pre"
    unfolding r(5) using len class_of_less [of "c - a"] by simp
  have b1: "(heap_end pre, c - a, False) \<in> set (layout 96 ?bs')" by (rule mid_block)
  have "(heap_end (pre @ [(c - a, False)]), a, True) \<in> set (layout 96 ((pre @ [(c - a, False)]) @ (a, True) # post))"
    by (rule mid_block)
  then have b2: "(heap_end pre + (c - a), a, True) \<in> set (layout 96 ?bs')"
    by (simp add: heap_end_def add.assoc)
  have h: "GET (mem s') (HDRP (off (heap_listp s) (heap_end pre))) = tag (c - a) False"
    "GET (mem s') (HDRP (off (heap_listp s) (heap_end pre + (c - a)))) = tag a True"
    using block_tag(1) [OF r(2) b1] block_tag(1) [OF r(2) b2] unfolding r(6) HDRP_off by simp_all
  show ?thesis using r(1,2,3,4) la h unfolding lists_ok_iff by blast
qed

lemma fresh_heap_ok:
  "heap_listp fresh_heap = 0x1008 \<and> tags_ok fresh_heap [(512, False)] \<and>
   lists_ok fresh_heap [(512, False)] [[], [], [], [], [], [96], [], [], [], [], []]"
  by (simp add: fresh_heap_def tags_ok_def lists_ok_def list_ok_def head_of_def heap_end_def
        off_def tag_def free_offs_def class_of_def upt_rec run_defs run_mem cong: run_cong)

theorem place_allocates_high_part_witness:
  "tags_ok fresh_heap ([] @ (512, False) # []) \<and>
   lists_ok fresh_heap ([] @ (512, False) # []) [[], [], [], [], [], [96], [], [], [], [], []] \<and>
   (16 :: int) \<le> 32 \<and> (8 :: int) dvd 32 \<and> (32 :: int) + 16 \<le> 512 \<and>
   (\<exists>s' fl'. place fresh_heap 0x1068 32 = Some (s', 0x1248) \<and>
      tags_ok s' [(480, False), (32, True)] \<and> lists_ok s' [(480, False), (32, True)] fl' \<and>
      last (fl' ! 5) = 96 \<and>
      GET (mem s') (HDRP 0x1068) = 480 \<and> GET (mem s') (HDRP 0x1248) = 33)"
proof -
  have B: "heap_listp fresh_heap = 0x1008"
    and t: "tags_ok fresh_heap ([] @ (512, False) # [])"
    and l: "lists_ok fresh_heap ([] @ (512, False) # [])
      [[], [], [], [], [], [96], [], [], [], [], []]"
    using fresh_heap_ok by simp_all
  have a: "(16 :: int) \<le> 32" "(8 :: int) dvd 32" "(32 :: int) + 16 \<le> 512" by simp_all
  have o: "off (0x1008 :: 64 word) 96 = 0x1068" "off (0x1008 :: 64 word) 576 = 0x1248"
    by (simp_all add: off_def)
  have c: "class_of (512 - 32) = 5" "tag (512 - 32) False = 480" "tag 32 True = 33"
    by (simp_all add: class_of_def tag_def)
  have e: "heap_end [] = 96" by (simp add: heap_end_def)
  from place_allocates_high_part [OF t l a] show ?thesis
    using t l unfolding B c e by (simp add: o)
qed

end
